theory Spec2Isabelle
  imports Main "HOL-Library.Word"
begin

section \<open>libansr: the byte-stream interpreter of \<^verbatim>\<open>src/ansr.c\<close>\<close>

text \<open>
  A shallow embedding of \<^verbatim>\<open>ansr.h\<close> and \<^verbatim>\<open>ansr.c\<close>. The C is read on an LP64
  platform with a signed \<^verbatim>\<open>char\<close> (x86-64 Linux): \<^verbatim>\<open>unsigned\<close> is a 32-bit word,
  \<^verbatim>\<open>size_t\<close> has 64 bits, \<^verbatim>\<open>char\<close> is an 8-bit word that is sign-extended when it
  is promoted. Values of type \<^verbatim>\<open>size_t\<close> are natural numbers here: every \<^verbatim>\<open>size_t\<close>
  expression of the code stays below \<open>2 ^ 64\<close> except the length given to the
  \<^verbatim>\<open>memset\<close> of the row table, whose wrap-around is written out.
  The code is read with assertions enabled (no \<^verbatim>\<open>NDEBUG\<close>): a failed \<^verbatim>\<open>assert\<close>
  ends the process. The leading underscore of \<^verbatim>\<open>_ansr_t\<close>, \<^verbatim>\<open>_ansr_add_char\<close>,
  and the other static names is dropped.
\<close>

subsection \<open>Data model (\<^verbatim>\<open>ansr.h\<close>, and \<^verbatim>\<open>_ansr_t\<close> of \<^verbatim>\<open>ansr.c\<close>)\<close>

type_synonym byte = "8 word"
type_synonym unsigned = "32 word"

datatype ansr_state_t =
  ANSR_STATE_INPUT | ANSR_STATE_EOF | ANSR_STATE_ESCAPE | ANSR_STATE_CSI

datatype ansr_color_t =
  ANSR_COLOR_BLACK | ANSR_COLOR_RED | ANSR_COLOR_GREEN | ANSR_COLOR_YELLOW
| ANSR_COLOR_BLUE | ANSR_COLOR_MAGENTA | ANSR_COLOR_CYAN | ANSR_COLOR_WHITE

record ansr_conf_t =
  screen_width :: unsigned
  screen_lines :: unsigned

record ansr_colors_t =
  fg :: ansr_color_t
  bg :: ansr_color_t

record ansr_attrs_t =
  bold :: bool
  faint :: bool
  italic :: bool
  underline :: bool
  slow_blink :: bool
  rapid_blink :: bool
  invert :: bool
  conceal :: bool
  strikeout :: bool
  double_underline :: bool
  proportional :: bool
  framed :: bool
  encircled :: bool
  overlined :: bool
  ideogram_underline :: bool
  ideogram_double_underline :: bool
  ideogram_overline :: bool
  ideogram_double_overline :: bool
  ideogram_stress :: bool
  superscript :: bool
  subscript :: bool

record ansr_disp_state_t =
  colors :: ansr_colors_t
  attrs :: ansr_attrs_t

text \<open>A cell. Its second field is \<^verbatim>\<open>disp_state\<close> in C; the renderer has a field of
  the same name, so the cell's one is \<open>char_disp_state\<close> here.\<close>

record ansr_char_t =
  code :: byte
  char_disp_state :: ansr_disp_state_t

text \<open>A row: the two recorded sizes and the flexible array \<^verbatim>\<open>cols[]\<close>. The length of
  \<open>cols\<close> is the number of cells the block really holds (what was asked of
  \<^verbatim>\<open>realloc\<close>), which the 32-bit field \<open>allocated_width\<close> only records.\<close>

record ansr_row_t =
  width :: unsigned
  allocated_width :: unsigned
  cols :: "ansr_char_t list"

text \<open>The public part. \<^verbatim>\<open>rows\<close> is an array of pointers: \<open>None\<close> is \<^verbatim>\<open>NULL\<close>. Its
  field \<^verbatim>\<open>conf\<close> (never written by \<^verbatim>\<open>ansr.c\<close>) is \<open>public_conf\<close> here.\<close>

record ansr_t =
  public_conf :: ansr_conf_t
  height :: unsigned
  allocated_height :: unsigned
  rows :: "ansr_row_t option list"

text \<open>\<^verbatim>\<open>_ansr_t\<close>. \<open>params\<close> is the parameter buffer, \<open>n_params_allocated\<close> bytes long,
  of which the first \<open>n_params\<close> are in use.\<close>

record ansr_priv_t =
  public :: ansr_t
  state :: ansr_state_t
  disp_state :: ansr_disp_state_t
  cursor_x :: unsigned
  cursor_y :: unsigned
  n_params_allocated :: nat
  n_params :: nat
  accumulator :: unsigned
  params :: "byte list"
  conf :: ansr_conf_t

subsection \<open>Outcomes, error codes, the allocator\<close>

text \<open>A call either returns (an \<^verbatim>\<open>int\<close> and the renderer as it left it) or the
  process ends: by a failed \<^verbatim>\<open>assert\<close>, or by an access outside an allocated block
  (undefined behaviour in C, one outcome here).\<close>

datatype failure = Assert_Failed | Out_Of_Bounds

definition ENOMEM :: int where
  "ENOMEM = 12"

definition EOVERFLOW :: int where
  "EOVERFLOW = 75"

text \<open>Whether \<^verbatim>\<open>calloc\<close>/\<^verbatim>\<open>realloc\<close> succeeds is the environment's choice: every
  function that allocates takes an allocator, which answers each request (the block
  asked for and its number of elements).\<close>

datatype alloc_req =
  Alloc_Ansr | Alloc_Params nat | Alloc_Rows nat | Alloc_Cols nat

type_synonym allocator = "alloc_req \<Rightarrow> bool"

definition ANSR_MIN_ALLOC_PARAMS :: nat where
  "ANSR_MIN_ALLOC_PARAMS = 2"

definition ANSR_MIN_ALLOC_ROWS :: unsigned where
  "ANSR_MIN_ALLOC_ROWS = 64"

definition ANSR_MIN_ALLOC_COLS :: nat where
  "ANSR_MIN_ALLOC_COLS = 80"

text \<open>Memory as \<^verbatim>\<open>calloc\<close> and \<^verbatim>\<open>memset(.., 0, ..)\<close> leave it: every field zero, so both
  colours are the enumerator of value 0.\<close>

definition zero_attrs :: ansr_attrs_t where
  "zero_attrs = \<lparr> bold = False, faint = False, italic = False, underline = False,
     slow_blink = False, rapid_blink = False, invert = False, conceal = False,
     strikeout = False, double_underline = False, proportional = False,
     framed = False, encircled = False, overlined = False,
     ideogram_underline = False, ideogram_double_underline = False,
     ideogram_overline = False, ideogram_double_overline = False,
     ideogram_stress = False, superscript = False, subscript = False \<rparr>"

definition zero_disp_state :: ansr_disp_state_t where
  "zero_disp_state =
     \<lparr> colors = \<lparr> fg = ANSR_COLOR_BLACK, bg = ANSR_COLOR_BLACK \<rparr>, attrs = zero_attrs \<rparr>"

definition zero_char :: ansr_char_t where
  "zero_char = \<lparr> code = 0, char_disp_state = zero_disp_state \<rparr>"

definition zero_conf :: ansr_conf_t where
  "zero_conf = \<lparr> screen_width = 0, screen_lines = 0 \<rparr>"

definition zero_ansr :: ansr_priv_t where
  "zero_ansr =
     \<lparr> public = \<lparr> public_conf = zero_conf, height = 0, allocated_height = 0, rows = [] \<rparr>,
       state = ANSR_STATE_INPUT, disp_state = zero_disp_state,
       cursor_x = 0, cursor_y = 0, n_params_allocated = 0, n_params = 0,
       accumulator = 0, params = [], conf = zero_conf \<rparr>"

definition ansr_conf_defaults :: ansr_conf_t where
  "ansr_conf_defaults = \<lparr> screen_width = 80, screen_lines = 24 \<rparr>"

text \<open>The value a \<^verbatim>\<open>char\<close> has where the code uses it as a number: promoted to
  \<^verbatim>\<open>int\<close> (sign-extended) and then converted to \<^verbatim>\<open>unsigned\<close>.\<close>

definition char_to_unsigned :: "byte \<Rightarrow> unsigned" where
  "char_to_unsigned p = scast p"

text \<open>An \<^verbatim>\<open>int\<close> in 0..7 stored into an \<^verbatim>\<open>ansr_color_t\<close>. The code only stores
  \<^verbatim>\<open>p - 30\<close> for \<open>p\<close> in 30..37 and \<^verbatim>\<open>p - 40\<close> for \<open>p\<close> in 40..47; the last
  equation is never reached from it.\<close>

definition ansr_color_of :: "byte \<Rightarrow> ansr_color_t" where
  "ansr_color_of v =
     (if v = 0 then ANSR_COLOR_BLACK else if v = 1 then ANSR_COLOR_RED
      else if v = 2 then ANSR_COLOR_GREEN else if v = 3 then ANSR_COLOR_YELLOW
      else if v = 4 then ANSR_COLOR_BLUE else if v = 5 then ANSR_COLOR_MAGENTA
      else if v = 6 then ANSR_COLOR_CYAN else ANSR_COLOR_WHITE)"

subsection \<open>The parameter list (\<^verbatim>\<open>_ansr_params_append\<close>, \<^verbatim>\<open>_ansr_params_append_accumulator\<close>)\<close>

text \<open>\<^verbatim>\<open>realloc\<close> keeps the old bytes; the new ones are indeterminate in C and 0 here
  (the code writes \<^verbatim>\<open>params[i]\<close> before it reads it).\<close>

definition ansr_params_append :: "allocator \<Rightarrow> ansr_priv_t \<Rightarrow> byte \<Rightarrow> int \<times> ansr_priv_t" where
  "ansr_params_append h a p =
     (let grow = (n_params a + 1 > n_params_allocated a);
          newsize = max ANSR_MIN_ALLOC_PARAMS (n_params_allocated a * 2)
      in if grow \<and> \<not> h (Alloc_Params newsize) then (- ENOMEM, a)
         else
           let a1 = (if grow
                     then a\<lparr> n_params_allocated := newsize,
                            params := take newsize (params a)
                                        @ replicate (newsize - length (params a)) 0 \<rparr>
                     else a)
           in (0, a1\<lparr> params := (params a1)[n_params a1 := p],
                      n_params := n_params a1 + 1 \<rparr>))"

definition ansr_params_append_accumulator :: "allocator \<Rightarrow> ansr_priv_t \<Rightarrow> int \<times> ansr_priv_t" where
  "ansr_params_append_accumulator h a =
     (if accumulator a > 0xff then (- EOVERFLOW, a)
      else case ansr_params_append h a (ucast (accumulator a)) of
             (r, a1) \<Rightarrow> if r < 0 then (r, a1) else (0, a1\<lparr> accumulator := 0 \<rparr>))"

subsection \<open>The display state (\<^verbatim>\<open>_ansr_sgr_reset\<close>, \<^verbatim>\<open>_ansr_sgr\<close>)\<close>

definition ansr_sgr_reset :: "ansr_priv_t \<Rightarrow> ansr_priv_t" where
  "ansr_sgr_reset a =
     a\<lparr> disp_state :=
          \<lparr> colors = \<lparr> fg = ANSR_COLOR_WHITE, bg = ANSR_COLOR_BLACK \<rparr>, attrs = zero_attrs \<rparr> \<rparr>"

text \<open>An assignment to members of \<^verbatim>\<open>_ansr->disp_state.attrs\<close>, and to a member of
  \<^verbatim>\<open>_ansr->disp_state.colors\<close>.\<close>

definition set_attrs :: "(ansr_attrs_t \<Rightarrow> ansr_attrs_t) \<Rightarrow> ansr_priv_t \<Rightarrow> ansr_priv_t" where
  "set_attrs f a = a\<lparr> disp_state := (disp_state a)\<lparr> attrs := f (attrs (disp_state a)) \<rparr> \<rparr>"

definition set_colors :: "(ansr_colors_t \<Rightarrow> ansr_colors_t) \<Rightarrow> ansr_priv_t \<Rightarrow> ansr_priv_t" where
  "set_colors f a = a\<lparr> disp_state := (disp_state a)\<lparr> colors := f (colors (disp_state a)) \<rparr> \<rparr>"

text \<open>The body of the loop of \<^verbatim>\<open>_ansr_sgr\<close>: the \<^verbatim>\<open>switch (p)\<close>, case by case in the
  order of the source. The switch has no \<^verbatim>\<open>default\<close>: a value with no case falls
  through to the end. \<open>p\<close> is a signed \<^verbatim>\<open>char\<close>; every case label is in 0..107, so a
  byte with the high bit set (negative in C) matches none, as it matches none of the
  unsigned comparisons here.\<close>

definition ansr_sgr_param :: "ansr_priv_t \<Rightarrow> byte \<Rightarrow> failure + ansr_priv_t" where
  "ansr_sgr_param a p =
     (if p = 0 then Inr (ansr_sgr_reset a)
      else if p = 1 then Inr (set_attrs (\<lambda>t. t\<lparr> bold := True \<rparr>) a)
      else if p = 2 then Inr (set_attrs (\<lambda>t. t\<lparr> faint := True \<rparr>) a)
      else if p = 3 then Inr (set_attrs (\<lambda>t. t\<lparr> italic := True \<rparr>) a)
      else if p = 4 then Inr (set_attrs (\<lambda>t. t\<lparr> underline := True \<rparr>) a)
      else if p = 5 then Inr (set_attrs (\<lambda>t. t\<lparr> slow_blink := True \<rparr>) a)
      else if p = 6 then Inr (set_attrs (\<lambda>t. t\<lparr> rapid_blink := True \<rparr>) a)
      else if p = 7 then Inr (set_attrs (\<lambda>t. t\<lparr> invert := True \<rparr>) a)
      else if p = 8 then Inr (set_attrs (\<lambda>t. t\<lparr> conceal := True \<rparr>) a)
      else if p = 9 then Inr (set_attrs (\<lambda>t. t\<lparr> strikeout := True \<rparr>) a)
      else if p = 10 then Inl Assert_Failed
      else if 11 \<le> p \<and> p \<le> 19 then Inl Assert_Failed
      else if p = 20 then Inl Assert_Failed
      else if p = 21 then Inr (set_attrs (\<lambda>t. t\<lparr> double_underline := True \<rparr>) a)
      else if p = 22 then Inr (set_attrs (\<lambda>t. t\<lparr> bold := False \<rparr>) a)
      else if p = 23 then Inr (set_attrs (\<lambda>t. t\<lparr> italic := False \<rparr>) a)
      else if p = 24 then
        Inr (set_attrs (\<lambda>t. t\<lparr> underline := False, double_underline := False \<rparr>) a)
      else if p = 25 then
        Inr (set_attrs (\<lambda>t. t\<lparr> slow_blink := False, rapid_blink := False \<rparr>) a)
      else if p = 26 then Inr (set_attrs (\<lambda>t. t\<lparr> proportional := False \<rparr>) a)
      else if p = 27 then Inr (set_attrs (\<lambda>t. t\<lparr> invert := False \<rparr>) a)
      else if p = 28 then Inr (set_attrs (\<lambda>t. t\<lparr> conceal := False \<rparr>) a)
      else if p = 29 then Inr (set_attrs (\<lambda>t. t\<lparr> strikeout := False \<rparr>) a)
      else if 30 \<le> p \<and> p \<le> 37 then
        Inr (set_colors (\<lambda>k. k\<lparr> fg := ansr_color_of (p - 30) \<rparr>) a)
      else if p = 38 then Inl Assert_Failed
      else if p = 39 then Inl Assert_Failed
      else if 40 \<le> p \<and> p \<le> 47 then
        Inr (set_colors (\<lambda>k. k\<lparr> bg := ansr_color_of (p - 40) \<rparr>) a)
      else if p = 48 then Inl Assert_Failed
      else if p = 49 then Inl Assert_Failed
      else if p = 50 then Inr (set_attrs (\<lambda>t. t\<lparr> proportional := False \<rparr>) a)
      else if p = 51 then Inr (set_attrs (\<lambda>t. t\<lparr> framed := True \<rparr>) a)
      else if p = 52 then Inr (set_attrs (\<lambda>t. t\<lparr> encircled := True \<rparr>) a)
      else if p = 53 then Inr (set_attrs (\<lambda>t. t\<lparr> overlined := True \<rparr>) a)
      else if p = 54 then
        Inr (set_attrs (\<lambda>t. t\<lparr> framed := False, encircled := False \<rparr>) a)
      else if p = 55 then Inr (set_attrs (\<lambda>t. t\<lparr> overlined := False \<rparr>) a)
      else if p = 58 then Inl Assert_Failed
      else if p = 59 then Inl Assert_Failed
      else if p = 60 then Inr (set_attrs (\<lambda>t. t\<lparr> ideogram_underline := True \<rparr>) a)
      else if p = 61 then Inr (set_attrs (\<lambda>t. t\<lparr> ideogram_double_underline := True \<rparr>) a)
      else if p = 62 then Inr (set_attrs (\<lambda>t. t\<lparr> ideogram_overline := True \<rparr>) a)
      else if p = 63 then Inr (set_attrs (\<lambda>t. t\<lparr> ideogram_double_overline := True \<rparr>) a)
      else if p = 64 then Inr (set_attrs (\<lambda>t. t\<lparr> ideogram_stress := True \<rparr>) a)
      else if p = 65 then
        Inr (set_attrs (\<lambda>t. t\<lparr> ideogram_underline := False,
                               ideogram_double_underline := False,
                               ideogram_overline := False,
                               ideogram_double_overline := False,
                               ideogram_stress := False \<rparr>) a)
      else if p = 73 then Inr (set_attrs (\<lambda>t. t\<lparr> superscript := True \<rparr>) a)
      else if p = 74 then Inr (set_attrs (\<lambda>t. t\<lparr> subscript := True \<rparr>) a)
      else if p = 75 then
        Inr (set_attrs (\<lambda>t. t\<lparr> superscript := False, subscript := False \<rparr>) a)
      else if 90 \<le> p \<and> p \<le> 97 then Inl Assert_Failed
      else if 100 \<le> p \<and> p \<le> 107 then Inl Assert_Failed
      else Inr a)"

text \<open>The \<^verbatim>\<open>for\<close> loop over \<^verbatim>\<open>params[0 .. n_params)\<close>; the loop does not change the
  parameter list, so it runs over a copy of it.\<close>

fun ansr_sgr_loop :: "ansr_priv_t \<Rightarrow> byte list \<Rightarrow> failure + ansr_priv_t" where
  "ansr_sgr_loop a [] = Inr a"
| "ansr_sgr_loop a (p # ps) =
     (case ansr_sgr_param a p of Inl f \<Rightarrow> Inl f | Inr a1 \<Rightarrow> ansr_sgr_loop a1 ps)"

definition ansr_sgr :: "ansr_priv_t \<Rightarrow> failure + ansr_priv_t" where
  "ansr_sgr a =
     (if n_params a = 0 then Inr (ansr_sgr_reset a)
      else ansr_sgr_loop a (take (n_params a) (params a)))"

subsection \<open>The grid write path (\<^verbatim>\<open>_ansr_add_char\<close>)\<close>

text \<open>The soft wrap at the head of \<^verbatim>\<open>_ansr_add_char\<close>.\<close>

definition ansr_wrap :: "ansr_priv_t \<Rightarrow> ansr_priv_t" where
  "ansr_wrap a =
     (if screen_width (conf a) \<noteq> 0 \<and> cursor_x a = screen_width (conf a)
      then a\<lparr> cursor_x := 0, cursor_y := cursor_y a + 1 \<rparr>
      else a)"

text \<open>The block \<^verbatim>\<open>/* expand rows */\<close>. \<^verbatim>\<open>MAX(ANSR_MIN_ALLOC_ROWS, allocated_height * 2)\<close>
  is computed in \<^verbatim>\<open>unsigned\<close> and wraps. When the new height is below the old one,
  the length of the \<^verbatim>\<open>memset\<close>, \<^verbatim>\<open>sizeof(*new) * (new_height - allocated_height)\<close>, wraps
  in \<^verbatim>\<open>size_t\<close> to more than the block holds. Otherwise the old pointers are kept and
  the new slots are \<^verbatim>\<open>NULL\<close>.\<close>

definition ansr_expand_rows :: "allocator \<Rightarrow> ansr_priv_t \<Rightarrow> failure + (int \<times> ansr_priv_t)" where
  "ansr_expand_rows h a =
     (if cursor_y a \<ge> allocated_height (public a) then
        (let new_height = max ANSR_MIN_ALLOC_ROWS (allocated_height (public a) * 2)
         in if \<not> h (Alloc_Rows (unat new_height)) then Inr (- ENOMEM, a)
            else if new_height < allocated_height (public a) then Inl Out_Of_Bounds
            else Inr (0, a\<lparr> public := (public a)
                   \<lparr> allocated_height := new_height,
                     rows := take (unat (allocated_height (public a))) (rows (public a))
                             @ replicate (unat new_height - unat (allocated_height (public a)))
                                 None \<rparr> \<rparr>))
      else Inr (0, a))"

text \<open>The update of the logical height.\<close>

definition ansr_update_height :: "ansr_priv_t \<Rightarrow> ansr_priv_t" where
  "ansr_update_height a =
     (if cursor_y a \<ge> height (public a)
      then a\<lparr> public := (public a)\<lparr> height := cursor_y a + 1 \<rparr> \<rparr>
      else a)"

text \<open>The block \<^verbatim>\<open>/* expand cols */\<close>. \<^verbatim>\<open>rows[cursor_y]\<close> is read whatever the size
  of the table is. \<^verbatim>\<open>old_width\<close> and \<^verbatim>\<open>new_width\<close> are \<^verbatim>\<open>size_t\<close>; storing
  \<^verbatim>\<open>new_width\<close> into \<^verbatim>\<open>allocated_width\<close> truncates it to 32 bits. The block holds
  \<^verbatim>\<open>new_width\<close> cells: those below \<^verbatim>\<open>old_width\<close> are kept, the others are zeroed by
  the \<^verbatim>\<open>memset\<close>. A new row gets \<^verbatim>\<open>width = 0\<close>.\<close>

definition ansr_expand_cols :: "allocator \<Rightarrow> ansr_priv_t \<Rightarrow> failure + (int \<times> ansr_priv_t)" where
  "ansr_expand_cols h a =
     (let y = unat (cursor_y a); rs = rows (public a)
      in if length rs \<le> y then Inl Out_Of_Bounds
         else if (case rs ! y of None \<Rightarrow> True | Some r \<Rightarrow> cursor_x a \<ge> allocated_width r) then
           (let old_width = (case rs ! y of None \<Rightarrow> 0 | Some r \<Rightarrow> unat (allocated_width r));
                new_width = max (old_width * 2) ANSR_MIN_ALLOC_COLS
            in if \<not> h (Alloc_Cols new_width) then Inr (- ENOMEM, a)
               else
                 let new = (case rs ! y of
                       None \<Rightarrow> \<lparr> width = 0, allocated_width = of_nat new_width,
                                 cols = replicate new_width zero_char \<rparr>
                     | Some r \<Rightarrow> r\<lparr> allocated_width := of_nat new_width,
                                     cols := take old_width (cols r)
                                             @ replicate (new_width - old_width) zero_char \<rparr>)
                 in Inr (0, a\<lparr> public := (public a)\<lparr> rows := rs[y := Some new] \<rparr> \<rparr>))
         else Inr (0, a))"

text \<open>The tail of \<^verbatim>\<open>_ansr_add_char\<close>: the store into \<^verbatim>\<open>cols[cursor_x]\<close> (outside the
  block when \<open>cursor_x\<close> is not below the number of cells it holds), the advance of
  the cursor (which wraps at \<open>2 ^ 32\<close>) and the update of the logical width.\<close>

definition ansr_store_char :: "ansr_priv_t \<Rightarrow> byte \<Rightarrow> failure + (int \<times> ansr_priv_t)" where
  "ansr_store_char a c =
     (let y = unat (cursor_y a); x = unat (cursor_x a); rs = rows (public a)
      in if length rs \<le> y then Inl Out_Of_Bounds
         else case rs ! y of
           None \<Rightarrow> Inl Out_Of_Bounds
         | Some r \<Rightarrow>
             if length (cols r) \<le> x then Inl Out_Of_Bounds
             else
               let r1 = r\<lparr> cols := (cols r)[x := \<lparr> code = c, char_disp_state = disp_state a \<rparr>] \<rparr>;
                   cx = cursor_x a + 1;
                   r2 = (if width r1 < cx then r1\<lparr> width := cx \<rparr> else r1)
               in Inr (0, a\<lparr> cursor_x := cx,
                             public := (public a)\<lparr> rows := rs[y := Some r2] \<rparr> \<rparr>))"

definition ansr_add_char :: "allocator \<Rightarrow> ansr_priv_t \<Rightarrow> byte \<Rightarrow> failure + (int \<times> ansr_priv_t)" where
  "ansr_add_char h a c =
     (case ansr_expand_rows h (ansr_wrap a) of
        Inl f \<Rightarrow> Inl f
      | Inr (r1, a1) \<Rightarrow>
          if r1 < 0 then Inr (r1, a1)
          else case ansr_expand_cols h (ansr_update_height a1) of
                 Inl f \<Rightarrow> Inl f
               | Inr (r2, a2) \<Rightarrow>
                   if r2 < 0 then Inr (r2, a2) else ansr_store_char a2 c)"

subsection \<open>The state machine (\<^verbatim>\<open>ansr_write\<close>)\<close>

text \<open>\<^verbatim>\<open>case ANSR_STATE_INPUT\<close>. The value \<^verbatim>\<open>_ansr_add_char\<close> returns is dropped.\<close>

definition ansr_input :: "allocator \<Rightarrow> ansr_priv_t \<Rightarrow> byte \<Rightarrow> failure + ansr_priv_t" where
  "ansr_input h a c =
     (if c = 0x07 then Inr a
      else if c = 0x08 then Inr (if cursor_x a > 0 then a\<lparr> cursor_x := cursor_x a - 1 \<rparr> else a)
      else if c = 0x09 then Inl Assert_Failed
      else if c = 0x0a then Inr (a\<lparr> cursor_y := cursor_y a + 1 \<rparr>)
      else if c = 0x0c then Inl Assert_Failed
      else if c = 0x0d then Inr (a\<lparr> cursor_x := 0 \<rparr>)
      else if c = 0x1a then Inr (a\<lparr> state := ANSR_STATE_EOF \<rparr>)
      else if c = 0x1b then Inr (a\<lparr> state := ANSR_STATE_ESCAPE \<rparr>)
      else if c = 0x7f then Inr a
      else case ansr_add_char h a c of Inl f \<Rightarrow> Inl f | Inr (r, a1) \<Rightarrow> Inr a1)"

text \<open>\<^verbatim>\<open>case ANSR_STATE_ESCAPE\<close>.\<close>

definition ansr_escape :: "ansr_priv_t \<Rightarrow> byte \<Rightarrow> failure + ansr_priv_t" where
  "ansr_escape a c =
     (if c = 0x5b
      then Inr (a\<lparr> state := ANSR_STATE_CSI, accumulator := 0, n_params := 0 \<rparr>)
      else Inl Assert_Failed)"

text \<open>\<^verbatim>\<open>case ANSR_STATE_CSI\<close>, first \<^verbatim>\<open>switch\<close>: parameter bytes.
  \<^verbatim>\<open>assert(!_ansr_params_append_accumulator(_ansr))\<close> fails on every nonzero return.\<close>

definition ansr_csi_param :: "allocator \<Rightarrow> ansr_priv_t \<Rightarrow> byte \<Rightarrow> failure + ansr_priv_t" where
  "ansr_csi_param h a c =
     (if 0x30 \<le> c \<and> c \<le> 0x39 then
        Inr (a\<lparr> accumulator := accumulator a * 10 + char_to_unsigned (c - 0x30) \<rparr>)
      else if c = 0x3a then Inl Assert_Failed
      else if c = 0x3b then
        (case ansr_params_append_accumulator h a of
           (r, a1) \<Rightarrow> if r \<noteq> 0 then Inl Assert_Failed else Inr a1)
      else if 0x3c \<le> c \<and> c \<le> 0x3f then Inl Assert_Failed
      else if 0x20 \<le> c \<and> c \<le> 0x2f then Inl Assert_Failed
      else if (0x40 \<le> c \<and> c \<le> 0x6f) \<or> (0x70 \<le> c \<and> c \<le> 0x7e) then
        (case ansr_params_append_accumulator h a of
           (r, a1) \<Rightarrow> if r \<noteq> 0 then Inl Assert_Failed else Inr a1)
      else Inl Assert_Failed)"

text \<open>\<^verbatim>\<open>case ANSR_STATE_CSI\<close>, second \<^verbatim>\<open>switch\<close>: the final byte. A byte with no case
  (a parameter byte, or a final byte the switch does not list) changes nothing, and
  the parser stays in the CSI state.\<close>

definition ansr_csi_final :: "ansr_priv_t \<Rightarrow> byte \<Rightarrow> failure + ansr_priv_t" where
  "ansr_csi_final a c =
     (if c = 0x41 then
        (let n = (if n_params a \<noteq> 0 then char_to_unsigned (params a ! 0) else 1)
         in Inr (a\<lparr> cursor_y := cursor_y a - min (cursor_y a) n, state := ANSR_STATE_INPUT \<rparr>))
      else if c = 0x42 then
        Inr (a\<lparr> cursor_y := cursor_y a
                     + (if n_params a \<noteq> 0 then char_to_unsigned (params a ! 0) else 1),
                state := ANSR_STATE_INPUT \<rparr>)
      else if c = 0x43 then
        Inr (a\<lparr> cursor_x := cursor_x a
                     + (if n_params a \<noteq> 0 then char_to_unsigned (params a ! 0) else 1),
                state := ANSR_STATE_INPUT \<rparr>)
      else if c = 0x44 then Inl Assert_Failed
      else if c = 0x45 then Inl Assert_Failed
      else if c = 0x46 then Inl Assert_Failed
      else if c = 0x47 then
        Inr (a\<lparr> cursor_x := (if n_params a \<noteq> 0 then char_to_unsigned (params a ! 0) - 1 else 0),
                state := ANSR_STATE_INPUT \<rparr>)
      else if c = 0x48 then
        (let r = (if n_params a \<ge> 1 then char_to_unsigned (params a ! 0) - 1 else 0);
             c = (if n_params a = 2 then char_to_unsigned (params a ! 1) - 1 else 0)
         in Inr (a\<lparr> cursor_y := r, cursor_x := c, state := ANSR_STATE_INPUT \<rparr>))
      else if c = 0x49 then Inl Assert_Failed
      else if c = 0x4a then Inr (a\<lparr> state := ANSR_STATE_INPUT \<rparr>)
      else if c = 0x4b then Inl Assert_Failed
      else if c = 0x53 then Inl Assert_Failed
      else if c = 0x54 then Inl Assert_Failed
      else if c = 0x66 then Inl Assert_Failed
      else if c = 0x6d then
        (case ansr_sgr a of Inl f \<Rightarrow> Inl f | Inr a1 \<Rightarrow> Inr (a1\<lparr> state := ANSR_STATE_INPUT \<rparr>))
      else if 0x70 \<le> c \<and> c \<le> 0x7e then Inr (a\<lparr> state := ANSR_STATE_INPUT \<rparr>)
      else Inr a)"

text \<open>The body of the \<^verbatim>\<open>for\<close> loop of \<^verbatim>\<open>ansr_write\<close>: one byte.\<close>

definition ansr_write_byte :: "allocator \<Rightarrow> ansr_priv_t \<Rightarrow> byte \<Rightarrow> failure + ansr_priv_t" where
  "ansr_write_byte h a c =
     (case state a of
        ANSR_STATE_INPUT \<Rightarrow> ansr_input h a c
      | ANSR_STATE_EOF \<Rightarrow> Inr a
      | ANSR_STATE_ESCAPE \<Rightarrow> ansr_escape a c
      | ANSR_STATE_CSI \<Rightarrow>
          (case ansr_csi_param h a c of Inl f \<Rightarrow> Inl f | Inr a1 \<Rightarrow> ansr_csi_final a1 c))"

text \<open>\<^verbatim>\<open>ansr_write\<close>: the loop over the input, then \<^verbatim>\<open>return 0\<close>.\<close>

fun ansr_write :: "allocator \<Rightarrow> ansr_priv_t \<Rightarrow> byte list \<Rightarrow> failure + (int \<times> ansr_priv_t)" where
  "ansr_write h a [] = Inr (0, a)"
| "ansr_write h a (c # cs) =
     (case ansr_write_byte h a c of Inl f \<Rightarrow> Inl f | Inr a1 \<Rightarrow> ansr_write h a1 cs)"

text \<open>\<^verbatim>\<open>ansr_new\<close>: \<open>None\<close> for a \<^verbatim>\<open>NULL\<close> argument or result. \<^verbatim>\<open>ansr_free\<close> returns
  \<^verbatim>\<open>NULL\<close>.\<close>

definition ansr_new ::
    "allocator \<Rightarrow> ansr_conf_t option \<Rightarrow> byte list option \<Rightarrow> failure + ansr_priv_t option" where
  "ansr_new h cf input =
     (if input = Some [] then Inl Assert_Failed
      else if \<not> h Alloc_Ansr then Inr None
      else
        let a = zero_ansr\<lparr> conf := (case cf of None \<Rightarrow> ansr_conf_defaults | Some c \<Rightarrow> c) \<rparr>
        in case input of
             None \<Rightarrow> Inr (Some a)
           | Some inp \<Rightarrow>
               (case ansr_write h a inp of
                  Inl f \<Rightarrow> Inl f
                | Inr (r, a1) \<Rightarrow> if r < 0 then Inr None else Inr (Some a1)))"

subsection \<open>Notions used to state the properties\<close>

text \<open>The allocator that grants every request.\<close>

definition alloc_always :: allocator where
  "alloc_always req = True"

text \<open>The renderer \<^verbatim>\<open>ansr_new\<close> makes before it feeds any input: \<^verbatim>\<open>calloc\<close>'ed, with
  the configuration copied in.\<close>

definition ansr_fresh :: "ansr_conf_t \<Rightarrow> ansr_priv_t" where
  "ansr_fresh cf = zero_ansr\<lparr> conf := cf \<rparr>"

text \<open>The parameter buffer is as \<^verbatim>\<open>_ansr_params_append\<close> keeps it: \<open>n_params_allocated\<close>
  bytes long, at least \<open>n_params\<close> of them.\<close>

definition params_ok :: "ansr_priv_t \<Rightarrow> bool" where
  "params_ok a \<longleftrightarrow>
     length (params a) = n_params_allocated a \<and> n_params a \<le> n_params_allocated a"

text \<open>A parameter byte \<^verbatim>\<open>0x30 ... 0x39\<close>, and what the CSI state makes of a run of them:
  \<^verbatim>\<open>accumulator *= 10; accumulator += c - 0x30\<close> for each.\<close>

definition is_digit :: "byte \<Rightarrow> bool" where
  "is_digit c \<longleftrightarrow> 0x30 \<le> c \<and> c \<le> 0x39"

fun ansr_accumulate :: "unsigned \<Rightarrow> byte list \<Rightarrow> unsigned" where
  "ansr_accumulate acc [] = acc"
| "ansr_accumulate acc (c # cs) = ansr_accumulate (acc * 10 + char_to_unsigned (c - 0x30)) cs"

text \<open>The bytes of a CSI sequence between \<^verbatim>\<open>ESC [\<close> and the final byte: the parameters,
  each a run of digits, separated by \<^verbatim>\<open>;\<close>. A parameter is well formed when it is made
  of digits and accumulates to at most 255.\<close>

fun csi_body :: "byte list list \<Rightarrow> byte list" where
  "csi_body [] = []"
| "csi_body [ds] = ds"
| "csi_body (ds # dss) = ds @ 0x3b # csi_body dss"

definition csi_param_ok :: "byte list \<Rightarrow> bool" where
  "csi_param_ok ds \<longleftrightarrow> (\<forall>c \<in> set ds. is_digit c) \<and> ansr_accumulate 0 ds \<le> 0xff"

text \<open>Two renderers with the same grid, display state, configuration and cursor.\<close>

definition same_screen :: "ansr_priv_t \<Rightarrow> ansr_priv_t \<Rightarrow> bool" where
  "same_screen a b \<longleftrightarrow>
     public b = public a \<and> disp_state b = disp_state a \<and> conf b = conf a
     \<and> cursor_x b = cursor_x a \<and> cursor_y b = cursor_y a"

text \<open>What the read-only accessors see. \<open>row_at a y\<close> is the row behind slot \<open>y\<close> of the
  row table (none for a \<^verbatim>\<open>NULL\<close> slot and beyond the table), \<open>cell_at a y x\<close> the cell at
  row \<open>y\<close>, column \<open>x\<close>, when the row's block holds one.\<close>

definition row_at :: "ansr_priv_t \<Rightarrow> nat \<Rightarrow> ansr_row_t option" where
  "row_at a y = (if y < length (rows (public a)) then rows (public a) ! y else None)"

definition cell_at :: "ansr_priv_t \<Rightarrow> nat \<Rightarrow> nat \<Rightarrow> ansr_char_t option" where
  "cell_at a y x =
     (case row_at a y of
        None \<Rightarrow> None
      | Some r \<Rightarrow> if x < length (cols r) then Some (cols r ! x) else None)"

text \<open>The recorded sizes are the real ones: the row table holds \<open>allocated_height\<close>
  slots, and every row's block holds \<open>allocated_width\<close> cells. \<open>rows_ok\<close> is the first
  half alone.\<close>

definition rep_ok :: "ansr_priv_t \<Rightarrow> bool" where
  "rep_ok a \<longleftrightarrow>
     length (rows (public a)) = unat (allocated_height (public a))
     \<and> (\<forall>y r. row_at a y = Some r \<longrightarrow> length (cols r) = unat (allocated_width r))"

definition rows_ok :: "ansr_priv_t \<Rightarrow> bool" where
  "rows_ok a \<longleftrightarrow> length (rows (public a)) = unat (allocated_height (public a))"

text \<open>The two orderings between logical and allocated sizes, and the order in which a
  later renderer has grown from an earlier one: neither height is smaller, and every
  row that existed is still there with neither width smaller.\<close>

definition grid_inv :: "ansr_priv_t \<Rightarrow> bool" where
  "grid_inv a \<longleftrightarrow>
     height (public a) \<le> allocated_height (public a)
     \<and> (\<forall>y r. row_at a y = Some r \<longrightarrow> width r \<le> allocated_width r)"

definition grid_le :: "ansr_priv_t \<Rightarrow> ansr_priv_t \<Rightarrow> bool" where
  "grid_le a b \<longleftrightarrow>
     height (public a) \<le> height (public b)
     \<and> allocated_height (public a) \<le> allocated_height (public b)
     \<and> (\<forall>y r. row_at a y = Some r \<longrightarrow>
           (\<exists>r'. row_at b y = Some r' \<and> width r \<le> width r'
                 \<and> allocated_width r \<le> allocated_width r'))"

text \<open>An allocator that grants no row of \<open>2 ^ 32\<close> cells or more.\<close>

definition alloc_narrow :: "allocator \<Rightarrow> bool" where
  "alloc_narrow h \<longleftrightarrow> (\<forall>n. h (Alloc_Cols n) \<longrightarrow> n < 2 ^ 32)"

text \<open>The row that the block \<^verbatim>\<open>/* expand cols */\<close> puts into the slot of the row \<open>ro\<close>
  (\<open>None\<close> for a slot still \<^verbatim>\<open>NULL\<close>), the number of cells it asks for, and the
  condition under which it does so for cursor column \<open>x\<close>.\<close>

definition grown_row :: "ansr_row_t option \<Rightarrow> ansr_row_t" where
  "grown_row ro =
     (case ro of
        None \<Rightarrow> \<lparr> width = 0, allocated_width = of_nat ANSR_MIN_ALLOC_COLS,
                  cols = replicate ANSR_MIN_ALLOC_COLS zero_char \<rparr>
      | Some r \<Rightarrow>
          r\<lparr> allocated_width := of_nat (max (unat (allocated_width r) * 2) ANSR_MIN_ALLOC_COLS),
             cols := take (unat (allocated_width r)) (cols r)
                     @ replicate (max (unat (allocated_width r) * 2) ANSR_MIN_ALLOC_COLS
                                  - unat (allocated_width r)) zero_char \<rparr>)"

definition grown_width :: "ansr_row_t option \<Rightarrow> nat" where
  "grown_width ro =
     (case ro of None \<Rightarrow> ANSR_MIN_ALLOC_COLS
      | Some r \<Rightarrow> max (unat (allocated_width r) * 2) ANSR_MIN_ALLOC_COLS)"

definition must_grow :: "ansr_row_t option \<Rightarrow> unsigned \<Rightarrow> bool" where
  "must_grow ro x = (case ro of None \<Rightarrow> True | Some r \<Rightarrow> allocated_width r \<le> x)"

text \<open>The row after the store of byte \<open>c\<close> at the cursor column of \<open>a\<close> and the update of
  its logical width.\<close>

definition stored_row :: "ansr_priv_t \<Rightarrow> byte \<Rightarrow> ansr_row_t \<Rightarrow> ansr_row_t" where
  "stored_row a c r =
     r\<lparr> cols := (cols r)[unat (cursor_x a) := \<lparr> code = c, char_disp_state = disp_state a \<rparr>],
        width := (if width r < cursor_x a + 1 then cursor_x a + 1 else width r) \<rparr>"

text \<open>A step from \<open>a\<close> to \<open>b\<close> keeps the sizes exact, ordered and growing. The width
  condition \<open>grows_narrow\<close> is what such a step of \<^verbatim>\<open>_ansr_add_char\<close> needs: if the row
  under the (wrapped) cursor has to grow and the allocator grants it, the new number of
  cells still fits \<^verbatim>\<open>unsigned\<close>.\<close>

definition keeps_grid :: "ansr_priv_t \<Rightarrow> ansr_priv_t \<Rightarrow> bool" where
  "keeps_grid a b \<longleftrightarrow>
     (rep_ok a \<and> grid_inv a \<longrightarrow> rep_ok b \<and> grid_inv b \<and> grid_le a b)"

definition grows_narrow :: "allocator \<Rightarrow> ansr_priv_t \<Rightarrow> bool" where
  "grows_narrow h a \<longleftrightarrow>
     (must_grow (row_at a (unat (cursor_y (ansr_wrap a)))) (cursor_x (ansr_wrap a))
      \<and> h (Alloc_Cols (grown_width (row_at a (unat (cursor_y (ansr_wrap a))))))
      \<longrightarrow> grown_width (row_at a (unat (cursor_y (ansr_wrap a)))) < 2 ^ 32)"

text \<open>The bytes that reach the \<^verbatim>\<open>default\<close> label of the Input switch, and the cells a
  feed stores into: a byte stores into the cell under the cursor (after the soft wrap)
  when it is such a byte met in the Input state and \<^verbatim>\<open>_ansr_add_char\<close> returns 0.\<close>

definition ansr_plain :: "byte \<Rightarrow> bool" where
  "ansr_plain c \<longleftrightarrow> c \<notin> {0x07, 0x08, 0x09, 0x0a, 0x0c, 0x0d, 0x1a, 0x1b, 0x7f}"

definition ansr_stored :: "allocator \<Rightarrow> ansr_priv_t \<Rightarrow> byte \<Rightarrow> (nat \<times> nat) list" where
  "ansr_stored h a c =
     (if state a = ANSR_STATE_INPUT \<and> ansr_plain c then
        (case ansr_add_char h a c of
           Inl f \<Rightarrow> []
         | Inr (r, a1) \<Rightarrow>
             if r = 0 then [(unat (cursor_y (ansr_wrap a)), unat (cursor_x (ansr_wrap a)))] else [])
      else [])"

fun ansr_stores :: "allocator \<Rightarrow> ansr_priv_t \<Rightarrow> byte list \<Rightarrow> (nat \<times> nat) list" where
  "ansr_stores h a [] = []"
| "ansr_stores h a (c # cs) =
     ansr_stored h a c
     @ (case ansr_write_byte h a c of Inl f \<Rightarrow> [] | Inr a1 \<Rightarrow> ansr_stores h a1 cs)"

text \<open>Every cell of the grid outside the set \<open>S\<close> is as \<^verbatim>\<open>memset\<close> left it.\<close>

definition cells_zero_except :: "(nat \<times> nat) set \<Rightarrow> ansr_priv_t \<Rightarrow> bool" where
  "cells_zero_except S a \<longleftrightarrow> (\<forall>y x v. cell_at a y x = Some v \<longrightarrow> v = zero_char \<or> (y, x) \<in> S)"

text \<open>What a caller sees of the cursor after a feed: the value returned, the cursor row
  and the cursor column; \<open>None\<close> when the feed does not return.\<close>

definition cursor_after ::
    "failure + (int \<times> ansr_priv_t) \<Rightarrow> (int \<times> unsigned \<times> unsigned) option" where
  "cursor_after res =
     (case res of Inl f \<Rightarrow> None | Inr (r, a) \<Rightarrow> Some (r, cursor_y a, cursor_x a))"

text \<open>The two recorded widths of a row; and a renderer, made with screen width 0, whose
  row 0 holds 2684354560 cells (\<^verbatim>\<open>80 * 2 ^ 25\<close>), all of them written with \<^verbatim>\<open>A\<close>.\<close>

definition row_sizes :: "ansr_priv_t \<Rightarrow> nat \<Rightarrow> (unsigned \<times> unsigned) option" where
  "row_sizes a y =
     (case row_at a y of None \<Rightarrow> None | Some r \<Rightarrow> Some (width r, allocated_width r))"

definition wide_cell :: ansr_char_t where
  "wide_cell = \<lparr> code = 0x41, char_disp_state = zero_disp_state \<rparr>"

definition wide_ansr :: ansr_priv_t where
  "wide_ansr = zero_ansr
     \<lparr> cursor_x := 2684354560,
       public := \<lparr> public_conf = zero_conf, height = 1, allocated_height = 64,
                   rows = Some \<lparr> width = 2684354560, allocated_width = 2684354560,
                                 cols = replicate 2684354560 wide_cell \<rparr>
                          # replicate 63 None \<rparr> \<rparr>"

text \<open>The renderer after \<^verbatim>\<open>A\<close> has been fed to a fresh one of the default
  configuration, and \<open>wide_ansr\<close> after one more \<^verbatim>\<open>A\<close>.\<close>

definition ansr_after_A :: ansr_priv_t where
  "ansr_after_A = ansr_fresh ansr_conf_defaults
     \<lparr> cursor_x := 1,
       public := \<lparr> public_conf = zero_conf, height = 1, allocated_height = 64,
                   rows = Some \<lparr> width = 1, allocated_width = 80,
                                 cols = \<lparr> code = 0x41, char_disp_state = zero_disp_state \<rparr>
                                        # replicate 79 zero_char \<rparr>
                          # replicate 63 None \<rparr> \<rparr>"

definition wider_ansr :: ansr_priv_t where
  "wider_ansr = wide_ansr
     \<lparr> cursor_x := 2684354561,
       public := \<lparr> public_conf = zero_conf, height = 1, allocated_height = 64,
                   rows = Some \<lparr> width = 2684354561, allocated_width = 1073741824,
                                 cols = (replicate 2684354560 wide_cell
                                         @ replicate 2684354560 zero_char)
                                        [2684354560 := wide_cell] \<rparr>
                          # replicate 63 None \<rparr> \<rparr>"

text \<open>The allocated width of a row after \<open>n\<close> bytes have been written to it from column 0
  onwards: whenever the cursor has reached the allocated width, the block
  \<^verbatim>\<open>/* expand columns */\<close> has made it \<^verbatim>\<open>MAX(ANSR_MIN_ALLOC_COLS, allocated_width * 2)\<close>. And the
  renderer, made with screen width 0, whose row 0 holds \<open>n\<close> written cells in a block of
  that size.\<close>

fun row_cap :: "nat \<Rightarrow> nat" where
  "row_cap 0 = 0"
| "row_cap (Suc n) = (if row_cap n \<le> n then max (row_cap n * 2) ANSR_MIN_ALLOC_COLS else row_cap n)"

definition one_row :: "nat \<Rightarrow> ansr_priv_t" where
  "one_row n = zero_ansr
     \<lparr> cursor_x := of_nat n,
       public := \<lparr> public_conf = zero_conf, height = 1, allocated_height = 64,
                   rows = Some \<lparr> width = of_nat n, allocated_width = of_nat (row_cap n),
                                 cols = replicate n wide_cell
                                        @ replicate (row_cap n - n) zero_char \<rparr>
                          # replicate 63 None \<rparr> \<rparr>"

text \<open>The renderer, made with configuration \<open>cf\<close>, after the bytes \<open>bs\<close>, all of them
  reaching \<^verbatim>\<open>_ansr_add_char\<close>, have been fed to it in the Input state: where the cursor is,
  what the row under it looks like, which cells hold which byte.\<close>

definition seq_state :: "ansr_conf_t \<Rightarrow> byte list \<Rightarrow> ansr_priv_t \<Rightarrow> bool" where
  "seq_state cf bs a \<longleftrightarrow>
     state a = ANSR_STATE_INPUT \<and> conf a = cf \<and> disp_state a = zero_disp_state
     \<and> rep_ok a \<and> grid_inv a
     \<and> (if bs = [] then cursor_x a = 0 \<and> cursor_y a = 0 \<and> height (public a) = 0
                        \<and> (\<forall>j. row_at a j = None)
         else unat (cursor_y a) = (length bs - 1) div unat (screen_width cf)
            \<and> unat (cursor_x a) = (length bs - 1) mod unat (screen_width cf) + 1
            \<and> unat (height (public a)) = (length bs - 1) div unat (screen_width cf) + 1
            \<and> (\<exists>r. row_at a ((length bs - 1) div unat (screen_width cf)) = Some r
                  \<and> unat (width r) = (length bs - 1) mod unat (screen_width cf) + 1)
            \<and> (\<forall>j > (length bs - 1) div unat (screen_width cf). row_at a j = None))
     \<and> (\<forall>i < length bs.
           cell_at a (i div unat (screen_width cf)) (i mod unat (screen_width cf))
             = Some \<lparr> code = bs ! i, char_disp_state = zero_disp_state \<rparr>)
     \<and> (\<forall>y x v. cell_at a y x = Some v \<longrightarrow>
           v = zero_char
           \<or> (\<exists>i < length bs. y = i div unat (screen_width cf) \<and> x = i mod unat (screen_width cf)))"

section \<open>Properties\<close>

subsection \<open>The feed loop\<close>

lemma ansr_write_append:
  "ansr_write h a (xs @ ys) =
     (case ansr_write h a xs of Inl f \<Rightarrow> Inl f | Inr (r, a1) \<Rightarrow> ansr_write h a1 ys)"
  by (induction xs arbitrary: a) (simp_all split: sum.splits)

lemma ansr_write_returns_zero: "ansr_write h a cs = Inr (r, a1) \<Longrightarrow> r = 0"
  by (induction cs arbitrary: a) (auto split: sum.splits)

lemma ansr_write_eof: "state a = ANSR_STATE_EOF \<Longrightarrow> ansr_write h a cs = Inr (0, a)"
  by (induction cs) (simp_all add: ansr_write_byte_def)

subsection \<open>End of stream\<close>

text \<open>
  C4. Once byte 0x1A has been consumed in the Input state the parser is in the EOF
  state, and from there every byte of the same call and of any later call is dropped:
  the renderer (grid, logical sizes, cursor, parser state) is returned as it was and the
  call returns 0; each single byte leaves the EOF state in place.
\<close>

theorem end_of_stream_is_final:
  assumes "state a = ANSR_STATE_INPUT"
  shows "ansr_write h a (0x1a # cs) = Inr (0, a\<lparr> state := ANSR_STATE_EOF \<rparr>)
       \<and> ansr_write h (a\<lparr> state := ANSR_STATE_EOF \<rparr>) cs' = Inr (0, a\<lparr> state := ANSR_STATE_EOF \<rparr>)
       \<and> ansr_write_byte h (a\<lparr> state := ANSR_STATE_EOF \<rparr>) c = Inr (a\<lparr> state := ANSR_STATE_EOF \<rparr>)"
proof -
  let ?e = "a\<lparr> state := ANSR_STATE_EOF \<rparr>"
  have step: "ansr_write_byte h a 0x1a = Inr ?e"
    using assms by (simp add: ansr_write_byte_def ansr_input_def)
  have rest: "ansr_write h ?e xs = Inr (0, ?e)" for xs
    by (rule ansr_write_eof) simp
  show ?thesis
    using step rest by (simp add: ansr_write_byte_def)
qed

theorem end_of_stream_is_final_witness:
  "state zero_ansr = ANSR_STATE_INPUT
   \<and> ansr_write (\<lambda>_. True) zero_ansr [0x1a, 0x41, 0x1b, 0x09]
       = Inr (0, zero_ansr\<lparr> state := ANSR_STATE_EOF \<rparr>)"
  using end_of_stream_is_final [of zero_ansr "\<lambda>_. True" "[0x41, 0x1b, 0x09]"]
  by (simp add: zero_ansr_def)

subsection \<open>Select Graphic Rendition\<close>

lemma ansr_sgr_param_0: "ansr_sgr_param a 0 = Inr (ansr_sgr_reset a)"
  by (simp add: ansr_sgr_param_def)

lemma ansr_sgr_loop_append:
  "ansr_sgr_loop a (ps @ qs) =
     (case ansr_sgr_loop a ps of Inl f \<Rightarrow> Inl f | Inr a1 \<Rightarrow> ansr_sgr_loop a1 qs)"
  by (induction ps arbitrary: a) (simp_all split: sum.splits)

text \<open>
  C5. SGR with an empty parameter list and SGR with the one-element list [0] end in the
  same display state whatever the display state was before: foreground white,
  background black, every attribute cleared. Nothing else of the renderer changes.
\<close>

theorem sgr_empty_same_as_sgr_zero:
  assumes "n_params a = 0" and "n_params b = 1" and "params b = 0 # ps"
  shows "ansr_sgr a = Inr (a\<lparr> disp_state :=
             \<lparr> colors = \<lparr> fg = ANSR_COLOR_WHITE, bg = ANSR_COLOR_BLACK \<rparr>, attrs = zero_attrs \<rparr> \<rparr>)
       \<and> ansr_sgr b = Inr (b\<lparr> disp_state :=
             \<lparr> colors = \<lparr> fg = ANSR_COLOR_WHITE, bg = ANSR_COLOR_BLACK \<rparr>, attrs = zero_attrs \<rparr> \<rparr>)"
  using assms by (simp add: ansr_sgr_def ansr_sgr_param_0 ansr_sgr_reset_def)

theorem sgr_empty_same_as_sgr_zero_witness:
  "n_params zero_ansr = 0
   \<and> n_params (zero_ansr\<lparr> n_params := 1, params := [0, 0], n_params_allocated := 2 \<rparr>) = 1
   \<and> disp_state zero_ansr = zero_disp_state
   \<and> (\<exists>a' b'. ansr_sgr zero_ansr = Inr a'
         \<and> ansr_sgr (zero_ansr\<lparr> n_params := 1, params := [0, 0], n_params_allocated := 2,
                disp_state := zero_disp_state\<lparr> attrs := zero_attrs\<lparr> bold := True \<rparr> \<rparr> \<rparr>) = Inr b'
         \<and> disp_state a' = disp_state b'
         \<and> fg (colors (disp_state a')) = ANSR_COLOR_WHITE
         \<and> bg (colors (disp_state a')) = ANSR_COLOR_BLACK
         \<and> attrs (disp_state a') = zero_attrs)"
  using sgr_empty_same_as_sgr_zero [of zero_ansr
          "zero_ansr\<lparr> n_params := 1, params := [0, 0], n_params_allocated := 2,
                disp_state := zero_disp_state\<lparr> attrs := zero_attrs\<lparr> bold := True \<rparr> \<rparr> \<rparr>" "[0]"]
  by (simp add: zero_ansr_def)

lemma byte_range_66_72:
  "(66::byte) \<le> p \<Longrightarrow> p \<le> 72 \<Longrightarrow>
     p \<in> {66, 67, 68, 69, 70, 71, 72}"
  by simp unat_arith

lemma byte_range_76_89:
  "(76::byte) \<le> p \<Longrightarrow> p \<le> 89 \<Longrightarrow>
     p \<in> {76, 77, 78, 79, 80, 81, 82, 83, 84, 85, 86, 87, 88, 89}"
  by simp unat_arith

lemma ansr_sgr_param_no_case:
  assumes "p \<in> {56, 57, 66, 67, 68, 69, 70, 71, 72,
                76, 77, 78, 79, 80, 81, 82, 83, 84, 85, 86, 87, 88, 89}"
  shows "ansr_sgr_param a p = Inr a"
  using assms by (elim insertE emptyE; simp add: ansr_sgr_param_def)

text \<open>
  C10. An SGR parameter of value 56, 57, 66 to 72 or 76 to 89 has no case in the switch
  of \<^verbatim>\<open>_ansr_sgr\<close>, which has no default branch: the parameter is accepted and the
  renderer, its display state included, is left exactly as it was. A parameter list
  holding such a value is applied as the list without it.
\<close>

theorem sgr_value_without_case_is_ignored:
  assumes "p = 56 \<or> p = 57 \<or> (66 \<le> p \<and> p \<le> 72) \<or> (76 \<le> p \<and> p \<le> 89)"
  shows "ansr_sgr_param a p = Inr a
       \<and> ansr_sgr_loop a (ps @ p # qs) = ansr_sgr_loop a (ps @ qs)"
proof -
  have mem: "p \<in> {56, 57, 66, 67, 68, 69, 70, 71, 72,
                   76, 77, 78, 79, 80, 81, 82, 83, 84, 85, 86, 87, 88, 89}"
    using assms byte_range_66_72 [of p] byte_range_76_89 [of p] by blast
  have one: "ansr_sgr_param b p = Inr b" for b
    using mem by (rule ansr_sgr_param_no_case)
  have "ansr_sgr_loop b (p # qs) = ansr_sgr_loop b qs" for b
    by (simp add: one)
  then have "ansr_sgr_loop a (ps @ p # qs) = ansr_sgr_loop a (ps @ qs)"
    by (simp add: ansr_sgr_loop_append split: sum.splits)
  with one show ?thesis by simp
qed

theorem sgr_value_without_case_is_ignored_witness:
  "((56::byte) = 56 \<or> (56::byte) = 57 \<or> (66 \<le> (56::byte) \<and> (56::byte) \<le> 72)
      \<or> (76 \<le> (56::byte) \<and> (56::byte) \<le> 89))
   \<and> ansr_sgr_param zero_ansr 56 = Inr zero_ansr
   \<and> ansr_sgr_loop zero_ansr [1, 56, 4] = ansr_sgr_loop zero_ansr [1, 4]"
  using sgr_value_without_case_is_ignored [of 56 zero_ansr "[1]" "[4]"]
  by simp

subsection \<open>Control sequences and their parameters\<close>

lemma csi_digit_byte:
  assumes "state a = ANSR_STATE_CSI" and "is_digit c"
  shows "ansr_write_byte h a c = Inr (a\<lparr> accumulator := accumulator a * 10 + char_to_unsigned (c - 0x30) \<rparr>)"
proof -
  have c: "0x30 \<le> c" "c \<le> 0x39" using assms(2) by (simp_all add: is_digit_def)
  have p: "ansr_csi_param h a c = Inr (a\<lparr> accumulator := accumulator a * 10 + char_to_unsigned (c - 0x30) \<rparr>)"
    using c by (simp add: ansr_csi_param_def)
  have ne: "c \<noteq> 0x41" "c \<noteq> 0x42" "c \<noteq> 0x43" "c \<noteq> 0x44" "c \<noteq> 0x45" "c \<noteq> 0x46"
           "c \<noteq> 0x47" "c \<noteq> 0x48" "c \<noteq> 0x49" "c \<noteq> 0x4a" "c \<noteq> 0x4b" "c \<noteq> 0x53"
           "c \<noteq> 0x54" "c \<noteq> 0x66" "c \<noteq> 0x6d"
    using c by unat_arith+
  have hi: "\<not> 0x70 \<le> c"
    using c by unat_arith
  have f: "ansr_csi_final b c = Inr b" for b
    using ne hi by (simp add: ansr_csi_final_def)
  show ?thesis
    using assms(1) by (simp add: ansr_write_byte_def p f)
qed

lemma csi_digits:
  assumes "state a = ANSR_STATE_CSI" and "\<forall>c \<in> set ds. is_digit c"
  shows "ansr_write h a ds = Inr (0, a\<lparr> accumulator := ansr_accumulate (accumulator a) ds \<rparr>)"
  using assms
proof (induction ds arbitrary: a)
  case Nil
  then show ?case by simp
next
  case (Cons c ds)
  then show ?case by (simp add: csi_digit_byte)
qed

lemma params_append_ok:
  assumes "params_ok a" and "\<forall>n. h (Alloc_Params n)"
  shows "\<exists>a1. ansr_params_append h a p = (0, a1) \<and> params_ok a1
           \<and> n_params a1 = n_params a + 1
           \<and> take (n_params a1) (params a1) = take (n_params a) (params a) @ [p]
           \<and> a1\<lparr> params := params a, n_params := n_params a, n_params_allocated := n_params_allocated a \<rparr> = a"
  using assms
  by (auto simp: ansr_params_append_def params_ok_def Let_def ANSR_MIN_ALLOC_PARAMS_def
        take_Suc_conv_app_nth nth_append)

lemma append_accumulator_overflow:
  "accumulator a > 0xff \<Longrightarrow> ansr_params_append_accumulator h a = (- EOVERFLOW, a)"
  by (simp add: ansr_params_append_accumulator_def)

lemma append_accumulator_ok:
  assumes "params_ok a" and "\<forall>n. h (Alloc_Params n)" and "accumulator a \<le> 0xff"
  shows "\<exists>a1. ansr_params_append_accumulator h a = (0, a1) \<and> params_ok a1
           \<and> n_params a1 = n_params a + 1
           \<and> take (n_params a1) (params a1) = take (n_params a) (params a) @ [ucast (accumulator a)]
           \<and> accumulator a1 = 0 \<and> state a1 = state a \<and> same_screen a a1"
proof -
  obtain a1 where a1: "ansr_params_append h a (ucast (accumulator a)) = (0, a1)" "params_ok a1"
      "n_params a1 = n_params a + 1"
      "take (n_params a1) (params a1) = take (n_params a) (params a) @ [ucast (accumulator a)]"
      "a1\<lparr> params := params a, n_params := n_params a, n_params_allocated := n_params_allocated a \<rparr> = a"
    using params_append_ok [OF assms(1,2)] by blast
  have fr: "state a1 = state a" "public a1 = public a" "disp_state a1 = disp_state a"
           "conf a1 = conf a" "cursor_x a1 = cursor_x a" "cursor_y a1 = cursor_y a"
    using arg_cong [OF a1(5), of state] arg_cong [OF a1(5), of public]
      arg_cong [OF a1(5), of disp_state] arg_cong [OF a1(5), of conf]
      arg_cong [OF a1(5), of cursor_x] arg_cong [OF a1(5), of cursor_y]
    by simp_all
  have "\<not> accumulator a > 0xff" using assms(3) by simp
  then have "ansr_params_append_accumulator h a = (0, a1\<lparr> accumulator := 0 \<rparr>)"
    by (simp add: ansr_params_append_accumulator_def a1(1))
  moreover have "params_ok (a1\<lparr> accumulator := 0 \<rparr>)"
    using a1(2) by (simp add: params_ok_def)
  ultimately show ?thesis
    using a1(3,4) fr by (auto simp: same_screen_def)
qed

lemma csi_final_no_case:
  assumes "c = 0x3b"
  shows "ansr_csi_final b c = Inr b"
  using assms by (simp add: ansr_csi_final_def)

lemma csi_semicolon:
  assumes "state a = ANSR_STATE_CSI" and "params_ok a" and "\<forall>n. h (Alloc_Params n)"
    and "accumulator a \<le> 0xff"
  shows "\<exists>a1. ansr_write_byte h a 0x3b = Inr a1 \<and> params_ok a1
           \<and> n_params a1 = n_params a + 1
           \<and> take (n_params a1) (params a1) = take (n_params a) (params a) @ [ucast (accumulator a)]
           \<and> accumulator a1 = 0 \<and> state a1 = ANSR_STATE_CSI \<and> same_screen a a1"
proof -
  obtain a1 where a1: "ansr_params_append_accumulator h a = (0, a1)" "params_ok a1"
      "n_params a1 = n_params a + 1"
      "take (n_params a1) (params a1) = take (n_params a) (params a) @ [ucast (accumulator a)]"
      "accumulator a1 = 0" "state a1 = state a" "same_screen a a1"
    using append_accumulator_ok [OF assms(2,3,4)] by blast
  have "ansr_csi_param h a 0x3b = Inr a1"
    by (simp add: ansr_csi_param_def a1(1))
  then have "ansr_write_byte h a 0x3b = Inr a1"
    using assms(1) by (simp add: ansr_write_byte_def csi_final_no_case)
  then show ?thesis using a1 assms(1) by auto
qed

lemma same_screen_refl: "same_screen a a"
  by (simp add: same_screen_def)

lemma same_screen_trans: "same_screen a b \<Longrightarrow> same_screen b c \<Longrightarrow> same_screen a c"
  by (simp add: same_screen_def)

lemma csi_body_feed:
  assumes "state a = ANSR_STATE_CSI" and "accumulator a = 0" and "params_ok a"
    and "\<forall>n. h (Alloc_Params n)" and "dss \<noteq> []" and "\<forall>ds \<in> set dss. csi_param_ok ds"
  shows "\<exists>a1. ansr_write h a (csi_body dss) = Inr (0, a1) \<and> state a1 = ANSR_STATE_CSI
           \<and> params_ok a1 \<and> n_params a1 = n_params a + (length dss - 1)
           \<and> take (n_params a1) (params a1)
               = take (n_params a) (params a) @ map (\<lambda>ds. ucast (ansr_accumulate 0 ds)) (butlast dss)
           \<and> accumulator a1 = ansr_accumulate 0 (last dss) \<and> same_screen a a1"
  using assms
proof (induction dss arbitrary: a rule: csi_body.induct)
  case 1
  then show ?case by simp
next
  case (2 ds)
  then have "ansr_write h a ds = Inr (0, a\<lparr> accumulator := ansr_accumulate (accumulator a) ds \<rparr>)"
    by (intro csi_digits) (simp_all add: csi_param_ok_def)
  with 2 show ?case by (simp add: same_screen_def params_ok_def)
next
  case (3 ds d dss)
  let ?b = "a\<lparr> accumulator := ansr_accumulate (accumulator a) ds \<rparr>"
  have ds: "ansr_write h a ds = Inr (0, ?b)"
    using 3 by (intro csi_digits) (simp_all add: csi_param_ok_def)
  have b: "state ?b = ANSR_STATE_CSI" "params_ok ?b" "accumulator ?b \<le> 0xff"
    using 3 by (simp_all add: params_ok_def csi_param_ok_def)
  obtain c where c: "ansr_write_byte h ?b 0x3b = Inr c" "params_ok c"
      "n_params c = n_params ?b + 1"
      "take (n_params c) (params c) = take (n_params ?b) (params ?b) @ [ucast (accumulator ?b)]"
      "accumulator c = 0" "state c = ANSR_STATE_CSI" "same_screen ?b c"
    using csi_semicolon [OF b(1,2) "3.prems"(4) b(3)] by blast
  obtain a1 where a1: "ansr_write h c (csi_body (d # dss)) = Inr (0, a1)"
      "state a1 = ANSR_STATE_CSI" "params_ok a1"
      "n_params a1 = n_params c + (length (d # dss) - 1)"
      "take (n_params a1) (params a1)
         = take (n_params c) (params c) @ map (\<lambda>ds. ucast (ansr_accumulate 0 ds)) (butlast (d # dss))"
      "accumulator a1 = ansr_accumulate 0 (last (d # dss))" "same_screen c a1"
    using "3.IH" [OF c(6,5,2) "3.prems"(4)] "3.prems"(6) by auto
  have "ansr_write h a (csi_body (ds # d # dss)) = Inr (0, a1)"
    using ds c(1) a1(1) by (simp add: ansr_write_append)
  moreover have "same_screen a a1"
    using c(7) a1(7) by (simp add: same_screen_def)
  ultimately show ?case
    using a1 c "3.prems"(2) by simp
qed

lemma csi_feed:
  assumes "state a = ANSR_STATE_INPUT" and "params_ok a" and "\<forall>n. h (Alloc_Params n)"
    and "dss \<noteq> []" and "\<forall>ds \<in> set dss. csi_param_ok ds" and "0x40 \<le> f" and "f \<le> 0x7e"
  shows "\<exists>a1. state a1 = ANSR_STATE_CSI \<and> params_ok a1 \<and> n_params a1 = length dss
           \<and> take (length dss) (params a1) = map (\<lambda>ds. ucast (ansr_accumulate 0 ds)) dss
           \<and> same_screen a a1
           \<and> (\<forall>rest. ansr_write h a (0x1b # 0x5b # csi_body dss @ f # rest)
                 = (case ansr_csi_final a1 f of Inl e \<Rightarrow> Inl e | Inr a2 \<Rightarrow> ansr_write h a2 rest))"
proof -
  let ?e = "a\<lparr> state := ANSR_STATE_ESCAPE \<rparr>"
  let ?c = "?e\<lparr> state := ANSR_STATE_CSI, accumulator := 0, n_params := 0 \<rparr>"
  have esc: "ansr_write_byte h a 0x1b = Inr ?e"
    using assms(1) by (simp add: ansr_write_byte_def ansr_input_def)
  have csi: "ansr_write_byte h ?e 0x5b = Inr ?c"
    by (simp add: ansr_write_byte_def ansr_escape_def)
  have c: "state ?c = ANSR_STATE_CSI" "accumulator ?c = 0" "params_ok ?c" "n_params ?c = 0"
    using assms(2) by (simp_all add: params_ok_def)
  obtain b where b: "ansr_write h ?c (csi_body dss) = Inr (0, b)" "state b = ANSR_STATE_CSI"
      "params_ok b" "n_params b = n_params ?c + (length dss - 1)"
      "take (n_params b) (params b)
         = take (n_params ?c) (params ?c) @ map (\<lambda>ds. ucast (ansr_accumulate 0 ds)) (butlast dss)"
      "accumulator b = ansr_accumulate 0 (last dss)" "same_screen ?c b"
    using csi_body_feed [OF c(1,2,3) assms(3,4,5)] by blast
  have "csi_param_ok (last dss)" using assms(4,5) by simp
  then have acc: "accumulator b \<le> 0xff" by (simp add: b(6) csi_param_ok_def)
  obtain a1 where a1: "ansr_params_append_accumulator h b = (0, a1)" "params_ok a1"
      "n_params a1 = n_params b + 1"
      "take (n_params a1) (params a1) = take (n_params b) (params b) @ [ucast (accumulator b)]"
      "accumulator a1 = 0" "state a1 = state b" "same_screen b a1"
    using append_accumulator_ok [OF b(3) assms(3) acc] by blast
  have n: "n_params a1 = length dss"
    using a1(3) b(4) assms(4) by (cases dss) simp_all
  have "map (\<lambda>ds. ucast (ansr_accumulate 0 ds)) (butlast dss) @ [ucast (ansr_accumulate 0 (last dss))]
          = map (\<lambda>ds. (ucast (ansr_accumulate 0 ds) :: byte)) (butlast dss @ [last dss])"
    by simp
  then have ps: "take (length dss) (params a1) = map (\<lambda>ds. ucast (ansr_accumulate 0 ds)) dss"
    using a1(4) b(5) b(6) n assms(4) by simp
  have "\<not> f \<le> 0x39" "f \<noteq> 0x3a" "f \<noteq> 0x3b" "\<not> f \<le> 0x3f" "\<not> f \<le> 0x2f"
    using assms(6) by unat_arith+
  moreover have "f \<le> 0x6f \<or> 0x70 \<le> f"
    by unat_arith
  ultimately have p: "ansr_csi_param h b f = Inr a1"
    using assms(6,7) by (auto simp: ansr_csi_param_def a1(1))
  have fin: "ansr_write_byte h b f = ansr_csi_final a1 f"
    using b(2) by (simp add: ansr_write_byte_def p)
  have "ansr_write h a (0x1b # 0x5b # csi_body dss @ f # rest)
          = (case ansr_csi_final a1 f of Inl e \<Rightarrow> Inl e | Inr a2 \<Rightarrow> ansr_write h a2 rest)" for rest
    using esc csi b(1) fin by (simp add: ansr_write_append)
  moreover have "same_screen a a1"
    using b(7) a1(7) by (simp add: same_screen_def)
  ultimately show ?thesis
    using a1(2,6) b(2) n ps by auto
qed

lemma small_param_value:
  assumes "(v::unsigned) \<le> 0x7f"
  shows "char_to_unsigned (ucast v) = v"
proof -
  have u: "uint v \<le> 127" using assms by (simp add: word_le_def)
  have "uint (ucast v :: byte) = take_bit 8 (uint v)"
    by (simp add: unsigned_ucast_eq)
  also have "\<dots> = uint v"
    using u by (simp add: take_bit_int_eq_self)
  finally have a: "uint (ucast v :: byte) = uint v" .
  have "sint (ucast v :: byte) = signed_take_bit 7 (uint v)"
    by (simp add: sint_uint a)
  also have "\<dots> = uint v"
  proof (rule signed_take_bit_int_eq_self)
    have "- (2 ^ 7) \<le> (0::int)" by simp
    also have "0 \<le> uint v" by simp
    finally show "- (2 ^ 7) \<le> uint v" .
    show "uint v < 2 ^ 7" using u by simp
  qed
  finally show ?thesis
    by (simp add: char_to_unsigned_def scast_eq)
qed

lemma csi_cursor_position:
  assumes "state a = ANSR_STATE_INPUT" and "params_ok a" and "\<forall>n. h (Alloc_Params n)"
    and "dss \<noteq> []" and "\<forall>ds \<in> set dss. csi_param_ok ds"
  shows "\<exists>a'. ansr_write h a (0x1b # 0x5b # csi_body dss @ [0x48]) = Inr (0, a')
           \<and> state a' = ANSR_STATE_INPUT \<and> public a' = public a
           \<and> cursor_y a' = char_to_unsigned (ucast (ansr_accumulate 0 (dss ! 0))) - 1
           \<and> cursor_x a' = (if length dss = 2
                            then char_to_unsigned (ucast (ansr_accumulate 0 (dss ! 1))) - 1
                            else 0)"
proof -
  obtain a1 where a1: "state a1 = ANSR_STATE_CSI" "n_params a1 = length dss"
      "take (length dss) (params a1) = map (\<lambda>ds. ucast (ansr_accumulate 0 ds)) dss"
      "same_screen a a1"
      "\<And>rest. ansr_write h a (0x1b # 0x5b # csi_body dss @ 0x48 # rest)
                 = (case ansr_csi_final a1 0x48 of Inl e \<Rightarrow> Inl e | Inr a2 \<Rightarrow> ansr_write h a2 rest)"
    using csi_feed [OF assms, of "0x48"] by auto
  have len: "0 < length dss" using assms(4) by simp
  have "take (length dss) (params a1) ! 0 = params a1 ! 0"
    using len by simp
  then have p0: "params a1 ! 0 = ucast (ansr_accumulate 0 (dss ! 0))"
    using a1(3) len by simp
  have p1: "params a1 ! 1 = ucast (ansr_accumulate 0 (dss ! 1))" if "length dss = 2"
    using a1(3) that by (metis Suc_1 lessI nth_map nth_take)
  show ?thesis
    using a1(5) [of "[]"] a1(2,4) len p0 p1
    by (auto simp: ansr_csi_final_def same_screen_def Let_def)
qed

lemma csi_cursor_column:
  assumes "state a = ANSR_STATE_INPUT" and "params_ok a" and "\<forall>n. h (Alloc_Params n)"
    and "dss \<noteq> []" and "\<forall>ds \<in> set dss. csi_param_ok ds"
  shows "\<exists>a'. ansr_write h a (0x1b # 0x5b # csi_body dss @ [0x47]) = Inr (0, a')
           \<and> state a' = ANSR_STATE_INPUT \<and> public a' = public a
           \<and> cursor_y a' = cursor_y a
           \<and> cursor_x a' = char_to_unsigned (ucast (ansr_accumulate 0 (dss ! 0))) - 1"
proof -
  obtain a1 where a1: "state a1 = ANSR_STATE_CSI" "n_params a1 = length dss"
      "take (length dss) (params a1) = map (\<lambda>ds. ucast (ansr_accumulate 0 ds)) dss"
      "same_screen a a1"
      "\<And>rest. ansr_write h a (0x1b # 0x5b # csi_body dss @ 0x47 # rest)
                 = (case ansr_csi_final a1 0x47 of Inl e \<Rightarrow> Inl e | Inr a2 \<Rightarrow> ansr_write h a2 rest)"
    using csi_feed [OF assms, of "0x47"] by auto
  have len: "0 < length dss" using assms(4) by simp
  have "take (length dss) (params a1) ! 0 = params a1 ! 0"
    using len by simp
  then have p0: "params a1 ! 0 = ucast (ansr_accumulate 0 (dss ! 0))"
    using a1(3) len by simp
  show ?thesis
    using a1(5) [of "[]"] a1(2,4) len p0
    by (auto simp: ansr_csi_final_def same_screen_def)
qed

text \<open>
  C7. Cursor Position \<^verbatim>\<open>H\<close> with its parameters left out does not move the cursor to
  row 0, column 0. The final byte appends the accumulator (0) to the parameter list
  before the dispatch, so \<^verbatim>\<open>n_params >= 1\<close> always holds there and the row becomes
  \<open>0 - 1\<close> in \<^verbatim>\<open>unsigned\<close>, 4294967295, against the comment \<^verbatim>\<open>defaults to 1 when omitted\<close>:
  so for \<^verbatim>\<open>ESC [ H\<close> on a fresh renderer, for \<^verbatim>\<open>ESC [ H\<close> with the cursor at row 2,
  column 2, and for \<^verbatim>\<open>ESC [ ; 5 H\<close>. \<^verbatim>\<open>ESC [ 5 ; 10 H\<close> sets row 4, column 9. The column
  is taken from the second parameter under \<^verbatim>\<open>n_params == 2\<close> only: \<^verbatim>\<open>ESC [ 5 ; 10 ; 3 H\<close>
  sets column 0. A parameter above 127 is read back from its \<^verbatim>\<open>char\<close> as a negative
  number: \<^verbatim>\<open>ESC [ 200 H\<close> sets row \<open>200 - 256 - 1\<close> in \<^verbatim>\<open>unsigned\<close>, 4294967239.
\<close>

theorem cursor_position_omitted_row:
  "cursor_after (ansr_write alloc_always (ansr_fresh ansr_conf_defaults) [0x1b, 0x5b, 0x48])
     = Some (0, 4294967295, 0)
   \<and> cursor_after (ansr_write alloc_always (ansr_fresh ansr_conf_defaults)
        [0x0a, 0x0a, 0x41, 0x42])
     = Some (0, 2, 2)
   \<and> cursor_after (ansr_write alloc_always (ansr_fresh ansr_conf_defaults)
        [0x0a, 0x0a, 0x41, 0x42, 0x1b, 0x5b, 0x48])
     = Some (0, 4294967295, 0)
   \<and> cursor_after (ansr_write alloc_always (ansr_fresh ansr_conf_defaults)
        [0x1b, 0x5b, 0x3b, 0x35, 0x48])
     = Some (0, 4294967295, 4)
   \<and> cursor_after (ansr_write alloc_always (ansr_fresh ansr_conf_defaults)
        [0x1b, 0x5b, 0x35, 0x3b, 0x31, 0x30, 0x48])
     = Some (0, 4, 9)
   \<and> cursor_after (ansr_write alloc_always (ansr_fresh ansr_conf_defaults)
        [0x1b, 0x5b, 0x35, 0x3b, 0x31, 0x30, 0x3b, 0x33, 0x48])
     = Some (0, 4, 0)
   \<and> cursor_after (ansr_write alloc_always (ansr_fresh ansr_conf_defaults)
        [0x1b, 0x5b, 0x32, 0x30, 0x30, 0x48])
     = Some (0, 4294967239, 0)"
  by code_simp

text \<open>
  C9. When the first parameter of a CSI sequence is 0 (written \<^verbatim>\<open>0\<close>, or left
  out), Cursor Position \<^verbatim>\<open>H\<close> sets the cursor row to \<open>0 - 1\<close> in \<^verbatim>\<open>unsigned\<close>, that is
  \<open>2 ^ 32 - 1\<close>, and Cursor Horizontal Absolute \<^verbatim>\<open>G\<close> sets the cursor column to
  \<open>2 ^ 32 - 1\<close>: the value is not clamped to 0.
\<close>

theorem cursor_parameter_zero_wraps:
  assumes "state a = ANSR_STATE_INPUT" and "params_ok a" and "\<forall>n. h (Alloc_Params n)"
    and "dss \<noteq> []" and "\<forall>ds \<in> set dss. csi_param_ok ds"
    and "ansr_accumulate 0 (dss ! 0) = 0"
  shows "(\<exists>a'. ansr_write h a (0x1b # 0x5b # csi_body dss @ [0x48]) = Inr (0, a')
            \<and> cursor_y a' = 4294967295 \<and> unat (cursor_y a') = 2 ^ 32 - 1)
       \<and> (\<exists>a'. ansr_write h a (0x1b # 0x5b # csi_body dss @ [0x47]) = Inr (0, a')
            \<and> cursor_x a' = 4294967295 \<and> unat (cursor_x a') = 2 ^ 32 - 1)"
proof -
  have z: "char_to_unsigned (ucast (ansr_accumulate 0 (dss ! 0))) - 1 = 4294967295"
    by (simp add: assms(6) char_to_unsigned_def)
  have u: "unat (4294967295 :: unsigned) = 2 ^ 32 - 1"
    by simp
  show ?thesis
    using csi_cursor_position [OF assms(1-5)] csi_cursor_column [OF assms(1-5)] z u
    by auto
qed

theorem cursor_parameter_zero_wraps_witness:
  "state zero_ansr = ANSR_STATE_INPUT \<and> params_ok zero_ansr
   \<and> ansr_accumulate 0 [0x30] = 0
   \<and> (\<exists>a'. ansr_write alloc_always zero_ansr [0x1b, 0x5b, 0x30, 0x48] = Inr (0, a')
          \<and> cursor_y a' = 4294967295)
   \<and> (\<exists>a'. ansr_write alloc_always zero_ansr [0x1b, 0x5b, 0x30, 0x47] = Inr (0, a')
          \<and> cursor_x a' = 4294967295)"
  using cursor_parameter_zero_wraps [of zero_ansr alloc_always "[[0x30]]"]
  by (auto simp add: zero_ansr_def params_ok_def alloc_always_def csi_param_ok_def is_digit_def
        char_to_unsigned_def simp del: ansr_write.simps)

subsection \<open>Parameter overflow\<close>

lemma csi_overflow_byte:
  assumes "state a1 = ANSR_STATE_CSI" and "accumulator a1 > 0xff"
    and "c = 0x3b \<or> (0x40 \<le> c \<and> c \<le> 0x7e)"
  shows "ansr_write_byte h a1 c = Inl Assert_Failed"
proof -
  have ov: "ansr_params_append_accumulator h a1 = (- EOVERFLOW, a1)"
    using assms(2) by (rule append_accumulator_overflow)
  have "ansr_csi_param h a1 c = Inl Assert_Failed"
  proof (cases "c = 0x3b")
    case True
    then show ?thesis by (simp add: ansr_csi_param_def ov EOVERFLOW_def)
  next
    case False
    then have c: "0x40 \<le> c" "c \<le> 0x7e" using assms(3) by auto
    have "\<not> c \<le> 0x39" "c \<noteq> 0x3a" "\<not> c \<le> 0x3f" "\<not> c \<le> 0x2f"
      using c(1) by unat_arith+
    then show ?thesis
      using False c by (auto simp: ansr_csi_param_def ov EOVERFLOW_def)
  qed
  then show ?thesis
    using assms(1) by (simp add: ansr_write_byte_def)
qed

text \<open>A feed that reaches \<^verbatim>\<open>;\<close> or a final byte (0x40 to 0x7E) in the CSI state with
  the accumulator above 255 ends on the failed assertion, whatever the bytes before
  it have done and whatever follows: \<^verbatim>\<open>_ansr_params_append_accumulator\<close> yields
  \<open>- EOVERFLOW\<close> and changes nothing, and \<^verbatim>\<open>ansr_write\<close> asserts that it yields 0.\<close>

lemma csi_overflow_feed:
  assumes "ansr_write h a pre = Inr (r, a1)"
    and "state a1 = ANSR_STATE_CSI" and "accumulator a1 > 0xff"
    and "c = 0x3b \<or> (0x40 \<le> c \<and> c \<le> 0x7e)"
  shows "ansr_params_append_accumulator h a1 = (- EOVERFLOW, a1)
       \<and> ansr_write h a (pre @ c # rest) = Inl Assert_Failed"
proof -
  have "ansr_write h a (pre @ c # rest) = Inl Assert_Failed"
    using assms(1) csi_overflow_byte [OF assms(2,3,4)] by (simp add: ansr_write_append)
  then show ?thesis
    using append_accumulator_overflow [OF assms(3)] by simp
qed

text \<open>
  C1. The overflow of a parameter is not reported to the caller. After \<^verbatim>\<open>ESC [ 9 9 9\<close>
  the accumulator holds 999; at the final byte \<^verbatim>\<open>m\<close>, or at \<^verbatim>\<open>;\<close>,
  \<^verbatim>\<open>_ansr_params_append_accumulator\<close> yields \<open>- EOVERFLOW\<close> and changes nothing, but
  \<^verbatim>\<open>ansr_write\<close> has the call inside \<^verbatim>\<open>assert(!...)\<close>: the process ends on the failed
  assertion and no negative value is returned, against the comment
  \<^verbatim>\<open>returns negative value on error\<close> above \<^verbatim>\<open>ansr_write\<close> and the test \<^verbatim>\<open>< 0\<close> of
  \<^verbatim>\<open>ansr_new\<close>, which ends the same way. What earlier bytes of the same call wrote is in
  the grid by then: \<^verbatim>\<open>A ESC [ 9 9 9\<close> has stored \<^verbatim>\<open>A\<close> in cell (0, 0) before \<^verbatim>\<open>m\<close> is
  met.
\<close>

theorem parameter_overflow_ends_the_process:
  "ansr_write alloc_always (ansr_fresh ansr_conf_defaults) [0x1b, 0x5b, 0x39, 0x39, 0x39]
     = Inr (0, ansr_fresh ansr_conf_defaults\<lparr> state := ANSR_STATE_CSI, accumulator := 999 \<rparr>)
   \<and> ansr_params_append_accumulator alloc_always
        (ansr_fresh ansr_conf_defaults\<lparr> state := ANSR_STATE_CSI, accumulator := 999 \<rparr>)
     = (- EOVERFLOW, ansr_fresh ansr_conf_defaults\<lparr> state := ANSR_STATE_CSI, accumulator := 999 \<rparr>)
   \<and> ansr_write alloc_always (ansr_fresh ansr_conf_defaults) [0x1b, 0x5b, 0x39, 0x39, 0x39, 0x6d]
     = Inl Assert_Failed
   \<and> ansr_write alloc_always (ansr_fresh ansr_conf_defaults) [0x1b, 0x5b, 0x39, 0x39, 0x39, 0x3b]
     = Inl Assert_Failed
   \<and> ansr_new alloc_always None (Some [0x1b, 0x5b, 0x39, 0x39, 0x39, 0x6d]) = Inl Assert_Failed
   \<and> ansr_write alloc_always (ansr_fresh ansr_conf_defaults) [0x41, 0x1b, 0x5b, 0x39, 0x39, 0x39]
     = Inr (0, ansr_fresh ansr_conf_defaults
                 \<lparr> state := ANSR_STATE_CSI, accumulator := 999, cursor_x := 1,
                   public := \<lparr> public_conf = zero_conf, height = 1, allocated_height = 64,
                     rows = Some \<lparr> width = 1, allocated_width = 80,
                                   cols = \<lparr> code = 0x41, char_disp_state = zero_disp_state \<rparr>
                                          # replicate 79 zero_char \<rparr>
                            # replicate 63 None \<rparr> \<rparr>)
   \<and> ansr_write alloc_always (ansr_fresh ansr_conf_defaults)
        [0x41, 0x1b, 0x5b, 0x39, 0x39, 0x39, 0x6d]
     = Inl Assert_Failed"
  by code_simp

subsection \<open>The grid: sizes\<close>

lemma unat_of_nat32: "n < 2 ^ 32 \<Longrightarrow> unat (of_nat n :: unsigned) = n"
  by (simp add: unat_of_nat)

lemma unat_inc: "(x::unsigned) < m \<Longrightarrow> unat (x + 1) = unat x + 1"
  by unat_arith

lemma grid_le_refl: "grid_le a a"
  by (simp add: grid_le_def)

lemma grid_le_trans: "grid_le a b \<Longrightarrow> grid_le b c \<Longrightarrow> grid_le a c"
  unfolding grid_le_def by (meson order_trans)

lemma row_at_update:
  "row_at (a\<lparr> public := (public a)\<lparr> rows := (rows (public a))[y := v] \<rparr> \<rparr>) j
     = (if j = y \<and> y < length (rows (public a)) then v else row_at a j)"
  by (simp add: row_at_def)

lemma expand_rows_enomem:
  "ansr_expand_rows h a = Inr (r, a1) \<Longrightarrow> r \<noteq> 0 \<Longrightarrow> a1 = a"
  by (auto simp: ansr_expand_rows_def Let_def split: if_splits)

lemma expand_rows_cases:
  assumes "ansr_expand_rows h a = Inr (r, a1)"
  shows "a1 = a \<or>
         (r = 0 \<and> allocated_height (public a) \<le> cursor_y a
          \<and> \<not> max ANSR_MIN_ALLOC_ROWS (allocated_height (public a) * 2) < allocated_height (public a)
          \<and> a1 = a\<lparr> public := (public a)
                \<lparr> allocated_height := max ANSR_MIN_ALLOC_ROWS (allocated_height (public a) * 2),
                  rows := take (unat (allocated_height (public a))) (rows (public a))
                          @ replicate (unat (max ANSR_MIN_ALLOC_ROWS (allocated_height (public a) * 2))
                                       - unat (allocated_height (public a))) None \<rparr> \<rparr>)"
  using assms unfolding ansr_expand_rows_def Let_def
  by (simp split: if_splits del: max_less_iff_conj)

lemma expand_rows_row_at:
  assumes "ansr_expand_rows h a = Inr (r, a1)" and "length (rows (public a)) = unat (allocated_height (public a))"
  shows "row_at a1 j = row_at a j"
proof -
  from expand_rows_cases [OF assms(1)] show ?thesis
  proof
    assume "a1 = a" then show ?thesis by simp
  next
    assume "r = 0 \<and> allocated_height (public a) \<le> cursor_y a
          \<and> \<not> max ANSR_MIN_ALLOC_ROWS (allocated_height (public a) * 2) < allocated_height (public a)
          \<and> a1 = a\<lparr> public := (public a)
                \<lparr> allocated_height := max ANSR_MIN_ALLOC_ROWS (allocated_height (public a) * 2),
                  rows := take (unat (allocated_height (public a))) (rows (public a))
                          @ replicate (unat (max ANSR_MIN_ALLOC_ROWS (allocated_height (public a) * 2))
                                       - unat (allocated_height (public a))) None \<rparr> \<rparr>"
    then show ?thesis
      using assms(2) by (auto simp: row_at_def nth_append)
  qed
qed

lemma expand_rows_length:
  assumes "ansr_expand_rows h a = Inr (r, a1)" and "length (rows (public a)) = unat (allocated_height (public a))"
  shows "length (rows (public a1)) = unat (allocated_height (public a1))
       \<and> allocated_height (public a) \<le> allocated_height (public a1)
       \<and> height (public a1) = height (public a)"
  using expand_rows_cases [OF assms(1)] assms(2)
  by (auto simp: word_le_nat_alt not_less simp del: max_less_iff_conj)

lemma expand_cols_cases:
  assumes "ansr_expand_cols h a = Inr (r, a1)"
  shows "unat (cursor_y a) < length (rows (public a))
       \<and> (a1 = a \<or>
           (r = 0 \<and> must_grow (rows (public a) ! unat (cursor_y a)) (cursor_x a)
            \<and> h (Alloc_Cols (grown_width (rows (public a) ! unat (cursor_y a))))
            \<and> a1 = a\<lparr> public := (public a)\<lparr> rows := (rows (public a))
                 [unat (cursor_y a) := Some (grown_row (rows (public a) ! unat (cursor_y a)))] \<rparr> \<rparr>))"
  using assms unfolding ansr_expand_cols_def Let_def grown_row_def grown_width_def must_grow_def
  by (auto split: if_splits option.splits simp: ANSR_MIN_ALLOC_COLS_def)

lemma expand_cols_enomem:
  "ansr_expand_cols h a = Inr (r, a1) \<Longrightarrow> r \<noteq> 0 \<Longrightarrow> a1 = a"
  using expand_cols_cases by blast

lemma store_char_cases:
  assumes "ansr_store_char a c = Inr (r, a1)"
  shows "r = 0 \<and> unat (cursor_y a) < length (rows (public a))
       \<and> (\<exists>row. rows (public a) ! unat (cursor_y a) = Some row
             \<and> unat (cursor_x a) < length (cols row)
             \<and> a1 = a\<lparr> cursor_x := cursor_x a + 1,
                       public := (public a)\<lparr> rows := (rows (public a))
                         [unat (cursor_y a) := Some (stored_row a c row)] \<rparr> \<rparr>)"
  using assms unfolding ansr_store_char_def Let_def stored_row_def
  by (auto split: if_splits option.splits)

lemma keeps_grid_refl: "keeps_grid a a"
  by (simp add: keeps_grid_def grid_le_refl)

lemma keeps_grid_trans: "keeps_grid a b \<Longrightarrow> keeps_grid b c \<Longrightarrow> keeps_grid a c"
  unfolding keeps_grid_def using grid_le_trans by blast

lemma keeps_grid_same_public: "public b = public a \<Longrightarrow> keeps_grid a b"
  by (simp add: keeps_grid_def rep_ok_def grid_inv_def grid_le_def row_at_def)

lemma keeps_grid_wrap: "keeps_grid a (ansr_wrap a)"
  by (rule keeps_grid_same_public) (simp add: ansr_wrap_def)

lemma keeps_grid_expand_rows:
  assumes "ansr_expand_rows h a = Inr (r, a1)"
  shows "keeps_grid a a1"
  unfolding keeps_grid_def
proof (intro impI)
  assume ok: "rep_ok a \<and> grid_inv a"
  then have len: "length (rows (public a)) = unat (allocated_height (public a))"
    by (simp add: rep_ok_def)
  have rw: "row_at a1 j = row_at a j" for j
    using expand_rows_row_at [OF assms len] .
  have sz: "length (rows (public a1)) = unat (allocated_height (public a1))"
      "allocated_height (public a) \<le> allocated_height (public a1)"
      "height (public a1) = height (public a)"
    using expand_rows_length [OF assms len] by simp_all
  show "rep_ok a1 \<and> grid_inv a1 \<and> grid_le a a1"
    using ok rw sz by (auto simp: rep_ok_def grid_inv_def grid_le_def)
qed

lemma grown_row_ok:
  assumes "case ro of None \<Rightarrow> True | Some r \<Rightarrow> length (cols r) = unat (allocated_width r)"
    and "grown_width ro < 2 ^ 32"
  shows "length (cols (grown_row ro)) = unat (allocated_width (grown_row ro))
       \<and> unat (allocated_width (grown_row ro)) = grown_width ro"
proof (cases ro)
  case None
  then show ?thesis by (simp add: grown_row_def grown_width_def ANSR_MIN_ALLOC_COLS_def)
next
  case (Some r)
  let ?n = "max (unat (allocated_width r) * 2) ANSR_MIN_ALLOC_COLS"
  have n: "?n < 2 ^ 32" using assms(2) Some by (simp add: grown_width_def)
  then have u: "unat (of_nat ?n :: unsigned) = ?n"
    by (simp add: unat_of_nat32)
  have "length (cols r) = unat (allocated_width r)" using assms(1) Some by simp
  then have "length (cols (grown_row ro)) = ?n"
    using Some by (simp add: grown_row_def)
  then show ?thesis
    using u Some by (simp add: grown_row_def grown_width_def)
qed

lemma grown_row_mono:
  assumes "grown_width (Some r) < 2 ^ 32"
  shows "width (grown_row (Some r)) = width r
       \<and> allocated_width r \<le> allocated_width (grown_row (Some r))"
proof -
  let ?n = "max (unat (allocated_width r) * 2) ANSR_MIN_ALLOC_COLS"
  have n: "?n < 2 ^ 32" using assms by (simp add: grown_width_def)
  then have u: "unat (of_nat ?n :: unsigned) = ?n"
    by (simp add: unat_of_nat32)
  have "unat (allocated_width r) \<le> ?n" by simp
  then show ?thesis
    using u by (simp add: grown_row_def word_le_nat_alt)
qed

lemma keeps_grid_expand_cols:
  assumes "ansr_expand_cols h (ansr_update_height a) = Inr (r, a1)"
    and "must_grow (row_at a (unat (cursor_y a))) (cursor_x a)
         \<and> h (Alloc_Cols (grown_width (row_at a (unat (cursor_y a)))))
         \<longrightarrow> grown_width (row_at a (unat (cursor_y a))) < 2 ^ 32"
  shows "keeps_grid a a1"
  unfolding keeps_grid_def
proof (intro impI)
  let ?u = "ansr_update_height a"
  let ?y = "unat (cursor_y a)"
  assume ok: "rep_ok a \<and> grid_inv a"
  have pu: "rows (public ?u) = rows (public a)"
      "allocated_height (public ?u) = allocated_height (public a)" "cursor_y ?u = cursor_y a"
      "cursor_x ?u = cursor_x a"
    by (simp_all add: ansr_update_height_def)
  have ru: "row_at ?u j = row_at a j" for j
    by (simp add: row_at_def pu)
  from expand_cols_cases [OF assms(1)]
  have y: "?y < length (rows (public a))"
    and c: "a1 = ?u \<or>
           (r = 0 \<and> must_grow (rows (public a) ! ?y) (cursor_x a)
            \<and> h (Alloc_Cols (grown_width (rows (public a) ! ?y)))
            \<and> a1 = ?u\<lparr> public := (public ?u)\<lparr> rows := (rows (public ?u))
                 [?y := Some (grown_row (rows (public a) ! ?y))] \<rparr> \<rparr>)"
    by (simp_all add: pu)
  have yh: "cursor_y a < allocated_height (public a)"
    using y ok by (simp add: rep_ok_def word_less_nat_alt)
  then have hh: "cursor_y a + 1 \<le> allocated_height (public a)"
    by (simp add: inc_le)
  have hu: "height (public a) \<le> height (public ?u)"
      "height (public ?u) \<le> allocated_height (public a)"
    using ok hh unat_inc [OF yh]
    by (auto simp: ansr_update_height_def grid_inv_def word_le_nat_alt)
  have u: "rep_ok ?u \<and> grid_inv ?u \<and> grid_le a ?u"
    using ok hu by (simp add: rep_ok_def grid_inv_def grid_le_def ru pu)
  from c show "rep_ok a1 \<and> grid_inv a1 \<and> grid_le a a1"
  proof
    assume "a1 = ?u" with u show ?thesis by simp
  next
    assume g: "r = 0 \<and> must_grow (rows (public a) ! ?y) (cursor_x a)
            \<and> h (Alloc_Cols (grown_width (rows (public a) ! ?y)))
            \<and> a1 = ?u\<lparr> public := (public ?u)\<lparr> rows := (rows (public ?u))
                 [?y := Some (grown_row (rows (public a) ! ?y))] \<rparr> \<rparr>"
    let ?ro = "rows (public a) ! ?y"
    have ro: "row_at a ?y = ?ro" using y by (simp add: row_at_def)
    have nw: "grown_width ?ro < 2 ^ 32"
      using g assms(2) ro by simp
    have ex: "case ?ro of None \<Rightarrow> True | Some r \<Rightarrow> length (cols r) = unat (allocated_width r)"
      using ok ro by (auto simp: rep_ok_def split: option.splits)
    note gr = grown_row_ok [OF ex nw]
    have r1: "row_at a1 j = (if j = ?y then Some (grown_row ?ro) else row_at a j)" for j
      using g y by (simp add: row_at_def pu)
    have p1: "length (rows (public a1)) = length (rows (public a))"
        "allocated_height (public a1) = allocated_height (public a)"
        "height (public a1) = height (public ?u)"
      using g by (simp_all add: pu)
    have rep: "rep_ok a1"
      using ok gr by (auto simp: rep_ok_def r1 p1)
    have inv: "grid_inv a1"
      unfolding grid_inv_def
    proof (intro conjI allI impI)
      show "height (public a1) \<le> allocated_height (public a1)"
        using hu by (simp add: p1)
      fix j r' assume j: "row_at a1 j = Some r'"
      show "width r' \<le> allocated_width r'"
      proof (cases "j = ?y")
        case False
        then show ?thesis using j ok by (auto simp: r1 grid_inv_def)
      next
        case True
        then have r': "r' = grown_row ?ro" using j by (simp add: r1)
        show ?thesis
        proof (cases ?ro)
          case None
          then show ?thesis by (simp add: r' grown_row_def)
        next
          case (Some q)
          then have "width q \<le> allocated_width q"
            using ok ro by (auto simp: grid_inv_def)
          then show ?thesis
            using grown_row_mono [of q] nw Some r' by auto
        qed
      qed
    qed
    have le: "grid_le a a1"
      unfolding grid_le_def
    proof (intro conjI allI impI)
      show "height (public a) \<le> height (public a1)" using hu by (simp add: p1)
      show "allocated_height (public a) \<le> allocated_height (public a1)" by (simp add: p1)
      fix j q assume j: "row_at a j = Some q"
      show "\<exists>r'. row_at a1 j = Some r' \<and> width q \<le> width r'
                 \<and> allocated_width q \<le> allocated_width r'"
      proof (cases "j = ?y")
        case False
        then show ?thesis using j by (simp add: r1)
      next
        case True
        then have "?ro = Some q" using j ro by simp
        then show ?thesis
          using grown_row_mono [of q] nw True by (simp add: r1)
      qed
    qed
    from rep inv le show ?thesis by simp
  qed
qed

lemma keeps_grid_store_char:
  assumes "ansr_store_char a c = Inr (r, a1)"
  shows "keeps_grid a a1"
  unfolding keeps_grid_def
proof (intro impI)
  let ?y = "unat (cursor_y a)"
  assume ok: "rep_ok a \<and> grid_inv a"
  from store_char_cases [OF assms] obtain row where
    y: "?y < length (rows (public a))" and row: "rows (public a) ! ?y = Some row"
    and x: "unat (cursor_x a) < length (cols row)"
    and a1: "a1 = a\<lparr> cursor_x := cursor_x a + 1,
                       public := (public a)\<lparr> rows := (rows (public a))
                         [?y := Some (stored_row a c row)] \<rparr> \<rparr>"
    by blast
  have ro: "row_at a ?y = Some row" using y row by (simp add: row_at_def)
  have ex: "length (cols row) = unat (allocated_width row)" "width row \<le> allocated_width row"
    using ok ro by (auto simp: rep_ok_def grid_inv_def)
  have "cursor_x a < allocated_width row"
    using x ex by (simp add: word_less_nat_alt)
  then have cx: "cursor_x a + 1 \<le> allocated_width row" by (rule inc_le)
  have st: "length (cols (stored_row a c row)) = unat (allocated_width (stored_row a c row))"
      "width (stored_row a c row) \<le> allocated_width (stored_row a c row)"
      "width row \<le> width (stored_row a c row)"
      "allocated_width (stored_row a c row) = allocated_width row"
    using ex cx by (auto simp: stored_row_def)
  have r1: "row_at a1 j = (if j = ?y then Some (stored_row a c row) else row_at a j)" for j
    using a1 y by (simp add: row_at_def)
  have p1: "length (rows (public a1)) = length (rows (public a))"
      "allocated_height (public a1) = allocated_height (public a)"
      "height (public a1) = height (public a)"
    using a1 by simp_all
  show "rep_ok a1 \<and> grid_inv a1 \<and> grid_le a a1"
    using ok st ro by (auto simp: rep_ok_def grid_inv_def grid_le_def r1 p1)
qed

lemma alloc_narrow_grows: "alloc_narrow h \<Longrightarrow> grows_narrow h a"
  by (simp add: alloc_narrow_def grows_narrow_def)

lemma keeps_grid_add_char:
  assumes "ansr_add_char h a c = Inr (r, a')" and "grows_narrow h a"
  shows "keeps_grid a a'"
proof (cases "rep_ok a")
  case False
  then show ?thesis by (simp add: keeps_grid_def)
next
  case rep: True
  let ?w = "ansr_wrap a"
  have w: "public ?w = public a" by (simp add: ansr_wrap_def)
  have lw: "length (rows (public ?w)) = unat (allocated_height (public ?w))"
    using rep w by (simp add: rep_ok_def)
  obtain r1 a1 where e1: "ansr_expand_rows h ?w = Inr (r1, a1)"
    using assms(1) by (auto simp: ansr_add_char_def split: sum.splits)
  have k1: "keeps_grid a a1"
    using keeps_grid_wrap keeps_grid_expand_rows [OF e1] by (rule keeps_grid_trans)
  have r1: "row_at a1 j = row_at a j" for j
    using expand_rows_row_at [OF e1 lw] by (simp add: row_at_def w)
  have f1: "a1\<lparr> public := public ?w \<rparr> = ?w"
    using expand_rows_cases [OF e1] by auto
  have c1: "cursor_y a1 = cursor_y ?w" "cursor_x a1 = cursor_x ?w"
    using arg_cong [OF f1, of cursor_y] arg_cong [OF f1, of cursor_x] by simp_all
  show ?thesis
  proof (cases "r1 < 0")
    case True
    then have "a' = a1" using assms(1) e1 by (simp add: ansr_add_char_def)
    with k1 show ?thesis by simp
  next
    case False
    then obtain r2 a2 where e2: "ansr_expand_cols h (ansr_update_height a1) = Inr (r2, a2)"
      using assms(1) e1 by (auto simp: ansr_add_char_def split: sum.splits)
    have "keeps_grid a1 a2"
      using assms(2) by (intro keeps_grid_expand_cols [OF e2]) (simp add: grows_narrow_def r1 c1)
    with k1 have k2: "keeps_grid a a2" by (rule keeps_grid_trans)
    show ?thesis
    proof (cases "r2 < 0")
      case True
      then have "a' = a2" using assms(1) e1 e2 False by (simp add: ansr_add_char_def)
      with k2 show ?thesis by simp
    next
      case r2: False
      then have "ansr_store_char a2 c = Inr (r, a')"
        using assms(1) e1 e2 False by (simp add: ansr_add_char_def)
      then show ?thesis
        using k2 keeps_grid_store_char keeps_grid_trans by blast
    qed
  qed
qed

lemma keeps_grid_input:
  assumes "ansr_input h a c = Inr a'" and "alloc_narrow h"
  shows "keeps_grid a a'"
proof (cases "c \<in> {0x07, 0x08, 0x09, 0x0a, 0x0c, 0x0d, 0x1a, 0x1b, 0x7f}")
  case True
  then have "public a' = public a"
    using assms(1) by (auto simp: ansr_input_def split: if_splits)
  then show ?thesis by (rule keeps_grid_same_public)
next
  case False
  then obtain r where "ansr_add_char h a c = Inr (r, a')"
    using assms(1) by (auto simp: ansr_input_def split: sum.splits)
  then show ?thesis using alloc_narrow_grows [OF assms(2)] by (rule keeps_grid_add_char)
qed

lemma params_append_public: "ansr_params_append h a p = (r, a1) \<Longrightarrow> public a1 = public a"
  by (auto simp: ansr_params_append_def Let_def split: if_splits)

lemma append_accumulator_public:
  "ansr_params_append_accumulator h a = (r, a1) \<Longrightarrow> public a1 = public a"
  by (auto simp: ansr_params_append_accumulator_def split: if_splits prod.splits
        dest: params_append_public)

lemma csi_param_public: "ansr_csi_param h a c = Inr a1 \<Longrightarrow> public a1 = public a"
  by (auto simp: ansr_csi_param_def split: if_splits prod.splits dest: append_accumulator_public)

lemma sgr_param_public: "ansr_sgr_param a p = Inr a1 \<Longrightarrow> public a1 = public a"
  unfolding ansr_sgr_param_def
  by (simp add: ansr_sgr_reset_def set_attrs_def set_colors_def split: if_splits) auto

lemma sgr_loop_public: "ansr_sgr_loop a ps = Inr a1 \<Longrightarrow> public a1 = public a"
  by (induction ps arbitrary: a) (auto split: sum.splits dest: sgr_param_public)

lemma sgr_public: "ansr_sgr a = Inr a1 \<Longrightarrow> public a1 = public a"
  by (auto simp: ansr_sgr_def ansr_sgr_reset_def split: if_splits dest: sgr_loop_public)

lemma csi_final_public: "ansr_csi_final a c = Inr a1 \<Longrightarrow> public a1 = public a"
  unfolding ansr_csi_final_def Let_def
  by (auto split: if_splits sum.splits dest: sgr_public)

lemma keeps_grid_write_byte:
  assumes "ansr_write_byte h a c = Inr a'" and "alloc_narrow h"
  shows "keeps_grid a a'"
proof (cases "state a")
  case ANSR_STATE_INPUT
  then show ?thesis using assms by (simp add: ansr_write_byte_def keeps_grid_input)
next
  case ANSR_STATE_EOF
  then show ?thesis using assms by (simp add: ansr_write_byte_def keeps_grid_refl)
next
  case ANSR_STATE_ESCAPE
  then have "public a' = public a"
    using assms(1) by (auto simp: ansr_write_byte_def ansr_escape_def split: if_splits)
  then show ?thesis by (rule keeps_grid_same_public)
next
  case ANSR_STATE_CSI
  then obtain a1 where "ansr_csi_param h a c = Inr a1" "ansr_csi_final a1 c = Inr a'"
    using assms(1) by (auto simp: ansr_write_byte_def split: sum.splits)
  then have "public a' = public a"
    using csi_param_public csi_final_public by metis
  then show ?thesis by (rule keeps_grid_same_public)
qed

lemma keeps_grid_write:
  assumes "ansr_write h a cs = Inr (r, a')" and "alloc_narrow h"
  shows "keeps_grid a a'"
  using assms(1)
proof (induction cs arbitrary: a)
  case Nil
  then show ?case by (simp add: keeps_grid_refl)
next
  case (Cons c cs)
  then obtain a1 where s: "ansr_write_byte h a c = Inr a1" "ansr_write h a1 cs = Inr (r, a')"
    by (auto split: sum.splits)
  show ?case
    using keeps_grid_write_byte [OF s(1) assms(2)] Cons.IH [OF s(2)] by (rule keeps_grid_trans)
qed

subsection \<open>The grid: one write\<close>

lemma expand_cols_cases0:
  assumes "ansr_expand_cols h a = Inr (0, a1)"
  shows "unat (cursor_y a) < length (rows (public a))
       \<and> ((\<exists>row. rows (public a) ! unat (cursor_y a) = Some row
                \<and> cursor_x a < allocated_width row \<and> a1 = a)
          \<or> (must_grow (rows (public a) ! unat (cursor_y a)) (cursor_x a)
              \<and> a1 = a\<lparr> public := (public a)\<lparr> rows := (rows (public a))
                 [unat (cursor_y a) := Some (grown_row (rows (public a) ! unat (cursor_y a)))] \<rparr> \<rparr>))"
  using assms unfolding ansr_expand_cols_def Let_def grown_row_def must_grow_def
  by (auto split: if_splits option.splits simp: ANSR_MIN_ALLOC_COLS_def ENOMEM_def not_le)

lemma add_char_chain:
  assumes "ansr_add_char h a c = Inr (0, a')"
  shows "\<exists>a1 a2. ansr_expand_rows h (ansr_wrap a) = Inr (0, a1)
           \<and> ansr_expand_cols h (ansr_update_height a1) = Inr (0, a2)
           \<and> ansr_store_char a2 c = Inr (0, a')"
proof -
  obtain r1 a1 where e1: "ansr_expand_rows h (ansr_wrap a) = Inr (r1, a1)"
    using assms by (auto simp: ansr_add_char_def split: sum.splits)
  have n1: "\<not> r1 < 0"
    using assms e1 by (auto simp: ansr_add_char_def)
  have z1: "r1 = 0"
    using e1 n1 by (auto simp: ansr_expand_rows_def Let_def ENOMEM_def split: if_splits)
  obtain r2 a2 where e2: "ansr_expand_cols h (ansr_update_height a1) = Inr (r2, a2)"
    using assms e1 n1 by (auto simp: ansr_add_char_def split: sum.splits)
  have n2: "\<not> r2 < 0"
    using assms e1 e2 n1 by (auto simp: ansr_add_char_def)
  have z2: "r2 = 0"
    using e2 n2 by (auto simp: ansr_expand_cols_def Let_def ENOMEM_def split: if_splits)
  have "ansr_store_char a2 c = Inr (0, a')"
    using assms e1 e2 n1 n2 by (simp add: ansr_add_char_def)
  then show ?thesis using e1 e2 z1 z2 by blast
qed

lemma add_char_shape:
  assumes "ansr_add_char h a c = Inr (0, a')"
    and "length (rows (public a)) = unat (allocated_height (public a))"
  shows "\<exists>row. (row_at a (unat (cursor_y (ansr_wrap a))) = Some row
                \<and> cursor_x (ansr_wrap a) < allocated_width row
              \<or> must_grow (row_at a (unat (cursor_y (ansr_wrap a)))) (cursor_x (ansr_wrap a))
                \<and> row = grown_row (row_at a (unat (cursor_y (ansr_wrap a)))))
           \<and> unat (cursor_x (ansr_wrap a)) < length (cols row)
           \<and> unat (cursor_y (ansr_wrap a)) < length (rows (public a'))
           \<and> row_at a' (unat (cursor_y (ansr_wrap a))) = Some (stored_row (ansr_wrap a) c row)
           \<and> (\<forall>j. j \<noteq> unat (cursor_y (ansr_wrap a)) \<longrightarrow> row_at a' j = row_at a j)
           \<and> cursor_x a' = cursor_x (ansr_wrap a) + 1
           \<and> cursor_y a' = cursor_y (ansr_wrap a)
           \<and> a'\<lparr> public := public a, cursor_x := cursor_x a, cursor_y := cursor_y a \<rparr> = a
           \<and> height (public a') = (if height (public a) \<le> cursor_y (ansr_wrap a)
                                   then cursor_y (ansr_wrap a) + 1 else height (public a))
           \<and> length (rows (public a')) = unat (allocated_height (public a'))
           \<and> allocated_height (public a) \<le> allocated_height (public a')"
proof -
  let ?w = "ansr_wrap a"
  let ?y = "unat (cursor_y ?w)"
  obtain a1 a2 where e1: "ansr_expand_rows h ?w = Inr (0, a1)"
    and e2: "ansr_expand_cols h (ansr_update_height a1) = Inr (0, a2)"
    and e3: "ansr_store_char a2 c = Inr (0, a')"
    using add_char_chain [OF assms(1)] by blast
  let ?u = "ansr_update_height a1"
  have w: "public ?w = public a" "disp_state ?w = disp_state a"
      "?w\<lparr> cursor_x := cursor_x a, cursor_y := cursor_y a \<rparr> = a"
    by (simp_all add: ansr_wrap_def)
  have lw: "length (rows (public ?w)) = unat (allocated_height (public ?w))"
    using assms(2) w by simp
  have r1: "row_at a1 j = row_at a j" for j
    using expand_rows_row_at [OF e1 lw] by (simp add: row_at_def w)
  have s1: "length (rows (public a1)) = unat (allocated_height (public a1))"
      "allocated_height (public a) \<le> allocated_height (public a1)"
      "height (public a1) = height (public a)"
    using expand_rows_length [OF e1 lw] w by simp_all
  have f1: "a1\<lparr> public := public ?w \<rparr> = ?w"
    using expand_rows_cases [OF e1] by auto
  have c1: "cursor_y a1 = cursor_y ?w" "cursor_x a1 = cursor_x ?w" "disp_state a1 = disp_state a"
    using arg_cong [OF f1, of cursor_y] arg_cong [OF f1, of cursor_x]
      arg_cong [OF f1, of disp_state] w(2) by simp_all
  have u: "rows (public ?u) = rows (public a1)" "cursor_y ?u = cursor_y ?w"
      "cursor_x ?u = cursor_x ?w" "disp_state ?u = disp_state a"
      "allocated_height (public ?u) = allocated_height (public a1)"
      "height (public ?u) = (if height (public a) \<le> cursor_y ?w
                             then cursor_y ?w + 1 else height (public a))"
      "?u\<lparr> public := public a1 \<rparr> = a1"
    using c1 s1(3) by (simp_all add: ansr_update_height_def)
  from expand_cols_cases0 [OF e2]
  have y: "?y < length (rows (public a1))"
    and g: "(\<exists>row. rows (public a1) ! ?y = Some row
                \<and> cursor_x ?w < allocated_width row \<and> a2 = ?u)
          \<or> (must_grow (rows (public a1) ! ?y) (cursor_x ?w)
              \<and> a2 = ?u\<lparr> public := (public ?u)\<lparr> rows := (rows (public a1))
                 [?y := Some (grown_row (rows (public a1) ! ?y))] \<rparr> \<rparr>)"
    by (simp_all add: u)
  have ry: "rows (public a1) ! ?y = row_at a ?y"
    using y r1 [of ?y] by (simp add: row_at_def)
  obtain row0 where row0: "row_at a ?y = Some row0 \<and> cursor_x ?w < allocated_width row0
                            \<or> must_grow (row_at a ?y) (cursor_x ?w)
                               \<and> row0 = grown_row (row_at a ?y)"
    and a2r: "rows (public a2) = (rows (public a1))[?y := Some row0]"
    and a2f: "a2\<lparr> public := public ?u \<rparr> = ?u"
      "allocated_height (public a2) = allocated_height (public a1)"
      "height (public a2) = height (public ?u)"
  proof -
    from g show ?thesis
    proof
      assume "\<exists>row. rows (public a1) ! ?y = Some row
                \<and> cursor_x ?w < allocated_width row \<and> a2 = ?u"
      then obtain row where rw: "rows (public a1) ! ?y = Some row"
          "cursor_x ?w < allocated_width row" "a2 = ?u" by blast
      have "(rows (public a1))[?y := Some row] = rows (public a1)"
        using rw(1) by (metis list_update_id)
      then have "rows (public a2) = (rows (public a1))[?y := Some row]"
        using rw(3) u(1) by simp
      moreover have "row_at a ?y = Some row \<and> cursor_x ?w < allocated_width row"
        using rw ry by simp
      ultimately show ?thesis
        using that [of row] rw(3) u(5) by simp
    next
      assume "must_grow (rows (public a1) ! ?y) (cursor_x ?w)
              \<and> a2 = ?u\<lparr> public := (public ?u)\<lparr> rows := (rows (public a1))
                 [?y := Some (grown_row (rows (public a1) ! ?y))] \<rparr> \<rparr>"
      then have "must_grow (row_at a ?y) (cursor_x ?w)"
          "rows (public a2) = (rows (public a1))[?y := Some (grown_row (row_at a ?y))]"
          "a2\<lparr> public := public ?u \<rparr> = ?u"
          "allocated_height (public a2) = allocated_height (public a1)"
          "height (public a2) = height (public ?u)"
        using ry u(5) by simp_all
      then show ?thesis
        using that [of "grown_row (row_at a ?y)"] by blast
    qed
  qed
  have c2: "cursor_y a2 = cursor_y ?w" "cursor_x a2 = cursor_x ?w" "disp_state a2 = disp_state a"
    using arg_cong [OF a2f(1), of cursor_y] arg_cong [OF a2f(1), of cursor_x]
      arg_cong [OF a2f(1), of disp_state] u by simp_all
  have st: "stored_row a2 c = stored_row ?w c"
    by (simp add: stored_row_def fun_eq_iff c2 w)
  from store_char_cases [OF e3] obtain row where
    row: "rows (public a2) ! ?y = Some row"
    and x: "unat (cursor_x ?w) < length (cols row)"
    and a': "a' = a2\<lparr> cursor_x := cursor_x a2 + 1,
                       public := (public a2)\<lparr> rows := (rows (public a2))
                         [?y := Some (stored_row ?w c row)] \<rparr> \<rparr>"
    by (auto simp: c2 st)
  have rr: "row = row0" using row a2r y by simp
  have ra': "row_at a' j = (if j = ?y then Some (stored_row ?w c row0) else row_at a j)" for j
  proof -
    have "row_at a' j = (if j = ?y then Some (stored_row ?w c row0) else row_at a1 j)"
      using a' a2r y by (simp add: row_at_def rr)
    then show ?thesis by (simp add: r1)
  qed
  have fr: "a'\<lparr> public := public a, cursor_x := cursor_x a, cursor_y := cursor_y a \<rparr> = a"
  proof -
    have "a'\<lparr> public := public a, cursor_x := cursor_x a, cursor_y := cursor_y a \<rparr>
            = a2\<lparr> public := public a, cursor_x := cursor_x a, cursor_y := cursor_y a \<rparr>"
      by (simp add: a')
    also have "\<dots> = (a2\<lparr> public := public ?u \<rparr>)\<lparr> public := public a, cursor_x := cursor_x a, cursor_y := cursor_y a \<rparr>"
      by simp
    also have "\<dots> = (?u\<lparr> public := public a1 \<rparr>)\<lparr> public := public a, cursor_x := cursor_x a, cursor_y := cursor_y a \<rparr>"
      by (simp add: a2f(1))
    also have "\<dots> = (a1\<lparr> public := public ?w \<rparr>)\<lparr> public := public a, cursor_x := cursor_x a, cursor_y := cursor_y a \<rparr>"
      by (simp add: u(7))
    also have "\<dots> = ?w\<lparr> public := public a, cursor_x := cursor_x a, cursor_y := cursor_y a \<rparr>"
      by (simp add: f1)
    also have "\<dots> = a"
      using w(3) by (simp add: ansr_wrap_def)
    finally show ?thesis .
  qed
  show ?thesis
    apply (rule exI [of _ row0])
    using row0 x rr y ra' fr a' a2r a2f u s1 c2
    by (simp add: row_at_def)
qed

lemma unat_double: "unat (x::unsigned) < 2 ^ 31 \<Longrightarrow> unat (x * 2) = 2 * unat x"
  by (simp add: unat_word_ariths)

lemma expand_rows_succeeds:
  assumes "\<forall>req. h req"
    and "length (rows (public a)) = unat (allocated_height (public a))"
    and "cursor_y a < allocated_height (public a)
         \<or> (unat (allocated_height (public a)) < 2 ^ 31
             \<and> unat (cursor_y a) < max 64 (2 * unat (allocated_height (public a))))"
  shows "\<exists>a1. ansr_expand_rows h a = Inr (0, a1) \<and> unat (cursor_y a) < length (rows (public a1))"
proof (cases "cursor_y a < allocated_height (public a)")
  case True
  then have "ansr_expand_rows h a = Inr (0, a)"
    by (simp add: ansr_expand_rows_def not_le [symmetric])
  then show ?thesis
    using True assms(2) by (simp add: word_less_nat_alt)
next
  case False
  let ?ah = "allocated_height (public a)"
  let ?n = "max ANSR_MIN_ALLOC_ROWS (?ah * 2)"
  have small: "unat ?ah < 2 ^ 31" "unat (cursor_y a) < max 64 (2 * unat ?ah)"
    using False assms(3) by simp_all
  have un: "unat ?n = max 64 (2 * unat ?ah)"
    using unat_double [OF small(1)]
    by (simp add: ANSR_MIN_ALLOC_ROWS_def max_def word_le_nat_alt)
  then have ge: "\<not> ?n < ?ah"
    by (simp add: word_less_nat_alt)
  have "ansr_expand_rows h a = Inr (0, a\<lparr> public := (public a)
                   \<lparr> allocated_height := ?n,
                     rows := take (unat ?ah) (rows (public a))
                             @ replicate (unat ?n - unat ?ah) None \<rparr> \<rparr>)"
    using False assms(1) ge unfolding ansr_expand_rows_def Let_def
    by (simp add: not_less del: max_less_iff_conj)
  moreover have "unat (cursor_y a) < length (take (unat ?ah) (rows (public a))
                             @ replicate (unat ?n - unat ?ah) None)"
    using small(2) un assms(2) by simp
  ultimately show ?thesis by simp
qed

lemma expand_cols_succeeds:
  assumes "\<forall>req. h req" and "unat (cursor_y a) < length (rows (public a))"
  shows "\<exists>a1. ansr_expand_cols h a = Inr (0, a1)"
  using assms unfolding ansr_expand_cols_def Let_def
  by (simp add: not_le [symmetric])

lemma store_char_succeeds:
  assumes "unat (cursor_y a) < length (rows (public a))"
    and "rows (public a) ! unat (cursor_y a) = Some row"
    and "unat (cursor_x a) < length (cols row)"
  shows "\<exists>a1. ansr_store_char a c = Inr (0, a1)"
  using assms unfolding ansr_store_char_def Let_def
  by (simp add: not_le [symmetric])

lemma add_char_succeeds:
  assumes "rep_ok a" and "\<forall>req. h req"
    and "cursor_y (ansr_wrap a) < allocated_height (public a)
         \<or> (unat (allocated_height (public a)) < 2 ^ 31
             \<and> unat (cursor_y (ansr_wrap a)) < max 64 (2 * unat (allocated_height (public a))))"
    and "case row_at a (unat (cursor_y (ansr_wrap a))) of
           None \<Rightarrow> unat (cursor_x (ansr_wrap a)) < 80
         | Some r \<Rightarrow> cursor_x (ansr_wrap a) < allocated_width r
                      \<or> unat (cursor_x (ansr_wrap a)) < max (2 * unat (allocated_width r)) 80"
  shows "\<exists>a'. ansr_add_char h a c = Inr (0, a')"
proof -
  let ?w = "ansr_wrap a"
  let ?y = "unat (cursor_y ?w)"
  let ?x = "unat (cursor_x ?w)"
  have w: "public ?w = public a" by (simp add: ansr_wrap_def)
  have lw: "length (rows (public ?w)) = unat (allocated_height (public ?w))"
    using assms(1) w by (simp add: rep_ok_def)
  obtain a1 where e1: "ansr_expand_rows h ?w = Inr (0, a1)"
    and y1: "?y < length (rows (public a1))"
    using expand_rows_succeeds [OF assms(2) lw] assms(3) w by auto
  have r1: "row_at a1 j = row_at a j" for j
    using expand_rows_row_at [OF e1 lw] by (simp add: row_at_def w)
  have f1: "a1\<lparr> public := public ?w \<rparr> = ?w"
    using expand_rows_cases [OF e1] by auto
  have c1: "cursor_y a1 = cursor_y ?w" "cursor_x a1 = cursor_x ?w"
    using arg_cong [OF f1, of cursor_y] arg_cong [OF f1, of cursor_x] by simp_all
  let ?u = "ansr_update_height a1"
  have u: "rows (public ?u) = rows (public a1)" "cursor_y ?u = cursor_y ?w"
      "cursor_x ?u = cursor_x ?w"
    using c1 by (simp_all add: ansr_update_height_def)
  obtain a2 where e2: "ansr_expand_cols h ?u = Inr (0, a2)"
    using expand_cols_succeeds [OF assms(2), of ?u] y1 u by auto
  have ry: "rows (public a1) ! ?y = row_at a ?y"
    using y1 r1 [of ?y] by (simp add: row_at_def)
  from expand_cols_cases0 [OF e2]
  have g: "(\<exists>row. rows (public a1) ! ?y = Some row
                \<and> cursor_x ?w < allocated_width row \<and> a2 = ?u)
          \<or> (a2 = ?u\<lparr> public := (public ?u)\<lparr> rows := (rows (public a1))
                 [?y := Some (grown_row (rows (public a1) ! ?y))] \<rparr> \<rparr>)"
    by (auto simp: u)
  have c2: "cursor_y a2 = cursor_y ?w" "cursor_x a2 = cursor_x ?w"
      "length (rows (public a2)) = length (rows (public a1))"
    using g u by auto
  have "\<exists>row. rows (public a2) ! ?y = Some row \<and> ?x < length (cols row)"
    using g
  proof
    assume "\<exists>row. rows (public a1) ! ?y = Some row
                \<and> cursor_x ?w < allocated_width row \<and> a2 = ?u"
    then obtain row where rw: "rows (public a1) ! ?y = Some row"
        "cursor_x ?w < allocated_width row" "a2 = ?u" by blast
    then have "row_at a ?y = Some row" using ry by simp
    then have "length (cols row) = unat (allocated_width row)"
      using assms(1) by (auto simp: rep_ok_def)
    then show ?thesis
      using rw u by (simp add: word_less_nat_alt)
  next
    assume a2: "a2 = ?u\<lparr> public := (public ?u)\<lparr> rows := (rows (public a1))
                 [?y := Some (grown_row (rows (public a1) ! ?y))] \<rparr> \<rparr>"
    have "?x < length (cols (grown_row (row_at a ?y)))"
    proof (cases "row_at a ?y")
      case None
      then show ?thesis
        using assms(4) by (simp add: grown_row_def ANSR_MIN_ALLOC_COLS_def)
    next
      case (Some r)
      then have ex: "length (cols r) = unat (allocated_width r)"
        using assms(1) by (auto simp: rep_ok_def)
      have "?x < max (2 * unat (allocated_width r)) 80"
        using assms(4) Some by (auto simp: word_less_nat_alt)
      then show ?thesis
        using Some ex by (simp add: grown_row_def ANSR_MIN_ALLOC_COLS_def mult.commute)
    qed
    then show ?thesis
      using a2 y1 ry by simp
  qed
  then obtain row where "rows (public a2) ! ?y = Some row" "?x < length (cols row)"
    by blast
  then obtain a' where e3: "ansr_store_char a2 c = Inr (0, a')"
    using store_char_succeeds [of a2 row c] y1 c2 by auto
  have "ansr_add_char h a c = Inr (0, a')"
    using e1 e2 e3 by (simp add: ansr_add_char_def)
  then show ?thesis by blast
qed

subsection \<open>The grid: cells\<close>

lemma rep_ok_rows_ok: "rep_ok a \<Longrightarrow> rows_ok a"
  by (simp add: rep_ok_def rows_ok_def)

lemma cell_at_same_public: "public b = public a \<Longrightarrow> cell_at b y x = cell_at a y x"
  by (simp add: cell_at_def row_at_def)

lemma grown_row_cell:
  assumes "x < length (cols (grown_row ro))"
  shows "cols (grown_row ro) ! x = zero_char
       \<or> (\<exists>r. ro = Some r \<and> x < length (cols r) \<and> cols (grown_row ro) ! x = cols r ! x)"
proof (cases ro)
  case None
  then show ?thesis using assms by (simp add: grown_row_def)
next
  case (Some r)
  let ?k = "unat (allocated_width r)"
  let ?m = "max (?k * 2) ANSR_MIN_ALLOC_COLS - ?k"
  have c: "cols (grown_row ro) = take ?k (cols r) @ replicate ?m zero_char"
    using Some by (simp add: grown_row_def)
  show ?thesis
  proof (cases "x < length (take ?k (cols r))")
    case True
    then show ?thesis using Some c by (simp add: nth_append)
  next
    case False
    then have "x - length (take ?k (cols r)) < ?m"
      using assms c by simp
    then show ?thesis using False c by (simp add: nth_append del: length_take)
  qed
qed

lemma grown_row_keeps:
  assumes "length (cols r) = unat (allocated_width r)" and "x < length (cols r)"
  shows "x < length (cols (grown_row (Some r))) \<and> cols (grown_row (Some r)) ! x = cols r ! x"
  using assms by (simp add: grown_row_def nth_append)

lemma add_char_cells:
  assumes "ansr_add_char h a c = Inr (0, a')" and "rows_ok a"
  shows "cell_at a' (unat (cursor_y (ansr_wrap a))) (unat (cursor_x (ansr_wrap a)))
           = Some \<lparr> code = c, char_disp_state = disp_state a \<rparr>"
    and "cell_at a' y x = Some v \<Longrightarrow>
           (y, x) \<noteq> (unat (cursor_y (ansr_wrap a)), unat (cursor_x (ansr_wrap a))) \<Longrightarrow>
           cell_at a y x = Some v \<or> v = zero_char"
    and "rep_ok a \<Longrightarrow> cell_at a y x = Some v \<Longrightarrow>
           (y, x) \<noteq> (unat (cursor_y (ansr_wrap a)), unat (cursor_x (ansr_wrap a))) \<Longrightarrow>
           cell_at a' y x = Some v"
proof -
  let ?w = "ansr_wrap a"
  let ?y = "unat (cursor_y ?w)"
  let ?x = "unat (cursor_x ?w)"
  have len: "length (rows (public a)) = unat (allocated_height (public a))"
    using assms(2) by (simp add: rows_ok_def)
  from add_char_shape [OF assms(1) len] obtain row where
    row: "row_at a ?y = Some row \<and> cursor_x ?w < allocated_width row
          \<or> must_grow (row_at a ?y) (cursor_x ?w) \<and> row = grown_row (row_at a ?y)"
    and x: "?x < length (cols row)"
    and ry: "row_at a' ?y = Some (stored_row ?w c row)"
    and rj: "\<forall>j. j \<noteq> ?y \<longrightarrow> row_at a' j = row_at a j"
    by blast
  have dw: "disp_state ?w = disp_state a" by (simp add: ansr_wrap_def)
  have sc: "cols (stored_row ?w c row)
              = (cols row)[?x := \<lparr> code = c, char_disp_state = disp_state a \<rparr>]"
    by (simp add: stored_row_def dw)
  show "cell_at a' ?y ?x = Some \<lparr> code = c, char_disp_state = disp_state a \<rparr>"
    using x by (simp add: cell_at_def ry sc)
  {
    assume v: "cell_at a' y x = Some v" and ne: "(y, x) \<noteq> (?y, ?x)"
    show "cell_at a y x = Some v \<or> v = zero_char"
    proof (cases "y = ?y")
      case False
      then show ?thesis using v rj by (simp add: cell_at_def)
    next
      case True
      then have xx: "x \<noteq> ?x" using ne by simp
      have vx: "x < length (cols row)" "v = cols row ! x"
        using v True xx by (auto simp: cell_at_def ry sc split: if_splits)
      from row show ?thesis
      proof
        assume "row_at a ?y = Some row \<and> cursor_x ?w < allocated_width row"
        then show ?thesis using vx True by (simp add: cell_at_def)
      next
        assume g: "must_grow (row_at a ?y) (cursor_x ?w) \<and> row = grown_row (row_at a ?y)"
        then have "x < length (cols (grown_row (row_at a ?y)))" using vx by simp
        from grown_row_cell [OF this] show ?thesis
          using g vx True by (auto simp: cell_at_def)
      qed
    qed
  }
  {
    assume rep: "rep_ok a" and v: "cell_at a y x = Some v" and ne: "(y, x) \<noteq> (?y, ?x)"
    show "cell_at a' y x = Some v"
    proof (cases "y = ?y")
      case False
      then show ?thesis using v rj by (simp add: cell_at_def)
    next
      case True
      then have xx: "x \<noteq> ?x" using ne by simp
      obtain r where r: "row_at a ?y = Some r" "x < length (cols r)" "v = cols r ! x"
        using v True by (auto simp: cell_at_def split: option.splits if_splits)
      have ex: "length (cols r) = unat (allocated_width r)"
        using rep r(1) by (auto simp: rep_ok_def)
      have "x < length (cols row) \<and> cols row ! x = v"
        using row
      proof
        assume "row_at a ?y = Some row \<and> cursor_x ?w < allocated_width row"
        then show ?thesis using r by simp
      next
        assume "must_grow (row_at a ?y) (cursor_x ?w) \<and> row = grown_row (row_at a ?y)"
        then show ?thesis
          using grown_row_keeps [OF ex r(2)] r by simp
      qed
      then show ?thesis
        using True xx by (simp add: cell_at_def ry sc)
    qed
  }
qed

lemma add_char_failed:
  assumes "ansr_add_char h a c = Inr (r, a')" and "r \<noteq> 0" and "rows_ok a"
  shows "(\<forall>j. row_at a' j = row_at a j) \<and> rows_ok a'"
proof -
  let ?w = "ansr_wrap a"
  have w: "public ?w = public a" by (simp add: ansr_wrap_def)
  have lw: "length (rows (public ?w)) = unat (allocated_height (public ?w))"
    using assms(3) w by (simp add: rows_ok_def)
  obtain r1 a1 where e1: "ansr_expand_rows h ?w = Inr (r1, a1)"
    using assms(1) by (auto simp: ansr_add_char_def split: sum.splits)
  have r1: "row_at a1 j = row_at a j" for j
    using expand_rows_row_at [OF e1 lw] by (simp add: row_at_def w)
  have s1: "rows_ok a1"
    using expand_rows_length [OF e1 lw] by (simp add: rows_ok_def)
  show ?thesis
  proof (cases "r1 < 0")
    case True
    then have "a' = a1" using assms(1) e1 by (simp add: ansr_add_char_def)
    then show ?thesis using r1 s1 by simp
  next
    case False
    then obtain r2 a2 where e2: "ansr_expand_cols h (ansr_update_height a1) = Inr (r2, a2)"
      using assms(1) e1 by (auto simp: ansr_add_char_def split: sum.splits)
    have "r2 < 0"
    proof (rule ccontr)
      assume "\<not> r2 < 0"
      then have "ansr_store_char a2 c = Inr (r, a')"
        using assms(1) e1 e2 False by (simp add: ansr_add_char_def)
      then show False using store_char_cases assms(2) by blast
    qed
    then have "a' = a2" "a2 = ansr_update_height a1"
      using assms(1) e1 e2 False expand_cols_enomem [OF e2] by (simp_all add: ansr_add_char_def)
    then have "rows (public a') = rows (public a1)"
        "allocated_height (public a') = allocated_height (public a1)"
      by (simp_all add: ansr_update_height_def)
    then have "row_at a' j = row_at a1 j" "rows_ok a' = rows_ok a1" for j
      by (simp_all add: row_at_def rows_ok_def)
    then show ?thesis
      using r1 s1 by simp
  qed
qed

lemma add_char_rows_ok:
  assumes "ansr_add_char h a c = Inr (r, a')" and "rows_ok a"
  shows "rows_ok a'"
proof (cases "r = 0")
  case True
  then show ?thesis
    using add_char_shape [of h a c a'] assms by (auto simp: rows_ok_def)
next
  case False
  then show ?thesis using add_char_failed [OF assms(1) _ assms(2)] by simp
qed

lemma write_byte_public:
  assumes "ansr_write_byte h a c = Inr a'" and "\<not> (state a = ANSR_STATE_INPUT \<and> ansr_plain c)"
  shows "public a' = public a"
proof (cases "state a")
  case ANSR_STATE_INPUT
  then have "c \<in> {0x07, 0x08, 0x09, 0x0a, 0x0c, 0x0d, 0x1a, 0x1b, 0x7f}"
    using assms(2) by (simp add: ansr_plain_def)
  moreover have "ansr_input h a c = Inr a'"
    using assms(1) ANSR_STATE_INPUT by (simp add: ansr_write_byte_def)
  ultimately show ?thesis
    by (elim insertE emptyE; simp add: ansr_input_def split: if_splits; auto)
next
  case ANSR_STATE_EOF
  then show ?thesis using assms(1) by (simp add: ansr_write_byte_def)
next
  case ANSR_STATE_ESCAPE
  then show ?thesis
    using assms(1) by (auto simp: ansr_write_byte_def ansr_escape_def split: if_splits)
next
  case ANSR_STATE_CSI
  then obtain a1 where "ansr_csi_param h a c = Inr a1" "ansr_csi_final a1 c = Inr a'"
    using assms(1) by (auto simp: ansr_write_byte_def split: sum.splits)
  then show ?thesis
    using csi_param_public csi_final_public by metis
qed

lemma write_byte_plain:
  assumes "state a = ANSR_STATE_INPUT" and "ansr_plain c"
  shows "ansr_write_byte h a c
           = (case ansr_add_char h a c of Inl f \<Rightarrow> Inl f | Inr (r, a1) \<Rightarrow> Inr a1)"
  using assms by (simp add: ansr_write_byte_def ansr_input_def ansr_plain_def)

lemma write_byte_cells:
  assumes "ansr_write_byte h a c = Inr a'" and "rows_ok a" and "cells_zero_except S a"
  shows "cells_zero_except (S \<union> set (ansr_stored h a c)) a' \<and> rows_ok a'"
proof (cases "state a = ANSR_STATE_INPUT \<and> ansr_plain c")
  case False
  then have p: "public a' = public a" using assms(1) by (intro write_byte_public)
  have eq: "cell_at a' y x = cell_at a y x" for y x
    using p by (rule cell_at_same_public)
  have "cells_zero_except (S \<union> set (ansr_stored h a c)) a'"
    unfolding cells_zero_except_def
  proof (intro allI impI)
    fix y x v assume "cell_at a' y x = Some v"
    then have "cell_at a y x = Some v" by (simp add: eq)
    then have "v = zero_char \<or> (y, x) \<in> S"
      using assms(3) unfolding cells_zero_except_def by blast
    then show "v = zero_char \<or> (y, x) \<in> S \<union> set (ansr_stored h a c)" by blast
  qed
  moreover have "rows_ok a'" using assms(2) p by (simp add: rows_ok_def)
  ultimately show ?thesis by simp
next
  case True
  then obtain r where e: "ansr_add_char h a c = Inr (r, a')"
    using assms(1) by (auto simp: write_byte_plain split: sum.splits)
  have ok: "rows_ok a'" using add_char_rows_ok [OF e assms(2)] .
  show ?thesis
  proof (cases "r = 0")
    case False
    then have "\<forall>j. row_at a' j = row_at a j"
      using add_char_failed [OF e _ assms(2)] by simp
    then have eq: "cell_at a' y x = cell_at a y x" for y x
      by (simp add: cell_at_def)
    have "cells_zero_except (S \<union> set (ansr_stored h a c)) a'"
      unfolding cells_zero_except_def
    proof (intro allI impI)
      fix y x v assume "cell_at a' y x = Some v"
      then have "cell_at a y x = Some v" by (simp add: eq)
      then have "v = zero_char \<or> (y, x) \<in> S"
        using assms(3) unfolding cells_zero_except_def by blast
      then show "v = zero_char \<or> (y, x) \<in> S \<union> set (ansr_stored h a c)" by blast
    qed
    with ok show ?thesis by simp
  next
    case z: True
    then have st: "ansr_stored h a c = [(unat (cursor_y (ansr_wrap a)), unat (cursor_x (ansr_wrap a)))]"
      using True e by (simp add: ansr_stored_def)
    have "cells_zero_except (S \<union> set (ansr_stored h a c)) a'"
      unfolding cells_zero_except_def
    proof (intro allI impI)
      fix y x v assume v: "cell_at a' y x = Some v"
      show "v = zero_char \<or> (y, x) \<in> S \<union> set (ansr_stored h a c)"
      proof (cases "(y, x) = (unat (cursor_y (ansr_wrap a)), unat (cursor_x (ansr_wrap a)))")
        case True
        then show ?thesis by (simp add: st)
      next
        case False
        from add_char_cells(2) [OF e [unfolded z] assms(2) v False]
        have "cell_at a y x = Some v \<or> v = zero_char" .
        then have "v = zero_char \<or> (y, x) \<in> S"
          using assms(3) unfolding cells_zero_except_def by blast
        then show ?thesis by blast
      qed
    qed
    with ok show ?thesis by simp
  qed
qed

lemma write_cells:
  assumes "ansr_write h a cs = Inr (r, a')" and "rows_ok a" and "cells_zero_except S a"
  shows "cells_zero_except (S \<union> set (ansr_stores h a cs)) a' \<and> rows_ok a'"
  using assms
proof (induction cs arbitrary: a S)
  case Nil
  then show ?case by simp
next
  case (Cons c cs)
  then obtain a1 where s: "ansr_write_byte h a c = Inr a1" "ansr_write h a1 cs = Inr (r, a')"
    by (auto split: sum.splits)
  from write_byte_cells [OF s(1) Cons.prems(2,3)]
  have a1: "cells_zero_except (S \<union> set (ansr_stored h a c)) a1" "rows_ok a1" by simp_all
  from Cons.IH [OF s(2) a1(2) a1(1)]
  show ?case using s(1) by (simp add: Un_assoc)
qed

text \<open>
  C8 (as amended). After any feed to a renderer whose cells were all zero (a fresh one has
  none), every cell the grid holds that no byte of the feed was stored into, also one
  below its row's logical width, is as \<^verbatim>\<open>memset\<close> left it: character code 0 and the
  all-zero display state, whose foreground is black (the enumerator of value 0), whose
  background is black and whose attributes are all clear.
\<close>

theorem unwritten_cells_are_zero:
  assumes "ansr_write h a cs = Inr (r, a')" and "rows_ok a"
    and "\<forall>y x v. cell_at a y x = Some v \<longrightarrow> v = zero_char"
    and "cell_at a' y x = Some v" and "(y, x) \<notin> set (ansr_stores h a cs)"
  shows "v = zero_char
       \<and> code v = 0 \<and> fg (colors (char_disp_state v)) = ANSR_COLOR_BLACK
       \<and> bg (colors (char_disp_state v)) = ANSR_COLOR_BLACK
       \<and> attrs (char_disp_state v) = zero_attrs"
proof -
  have "cells_zero_except {} a" using assms(3) by (simp add: cells_zero_except_def)
  from write_cells [OF assms(1,2) this]
  have "cells_zero_except (set (ansr_stores h a cs)) a'" by simp
  then have "v = zero_char"
    using assms(4,5) unfolding cells_zero_except_def by blast
  then show ?thesis by (simp add: zero_char_def zero_disp_state_def)
qed

theorem unwritten_cells_are_zero_witness:
  "ansr_write alloc_always (ansr_fresh ansr_conf_defaults) [0x41] = Inr (0, ansr_after_A)
   \<and> rows_ok (ansr_fresh ansr_conf_defaults)
   \<and> cell_at ansr_after_A 0 1 = Some zero_char
   \<and> (0, 1) \<notin> set (ansr_stores alloc_always (ansr_fresh ansr_conf_defaults) [0x41])
   \<and> fg (colors (char_disp_state zero_char)) = ANSR_COLOR_BLACK"
proof -
  have run: "ansr_write alloc_always (ansr_fresh ansr_conf_defaults) [0x41] = Inr (0, ansr_after_A)"
    by code_simp
  have ok: "rows_ok (ansr_fresh ansr_conf_defaults)"
    by (simp add: rows_ok_def ansr_fresh_def zero_ansr_def)
  have none: "\<forall>y x v. cell_at (ansr_fresh ansr_conf_defaults) y x = Some v \<longrightarrow> v = zero_char"
    by (simp add: cell_at_def row_at_def ansr_fresh_def zero_ansr_def)
  have cell: "cell_at ansr_after_A 0 1 = Some zero_char"
    by code_simp
  have st: "(0, 1) \<notin> set (ansr_stores alloc_always (ansr_fresh ansr_conf_defaults) [0x41])"
    by code_simp
  from unwritten_cells_are_zero [OF run ok none cell st]
  show ?thesis using run ok cell st by simp
qed

theorem unwritten_cells_counterexample:
  "ansr_write alloc_always (ansr_fresh ansr_conf_defaults) [0x41] = Inr (0, ansr_after_A)
   \<and> ansr_stores alloc_always (ansr_fresh ansr_conf_defaults) [0x41] = [(0, 0)]
   \<and> cell_at ansr_after_A 0 1 = Some zero_char
   \<and> fg (colors (char_disp_state zero_char)) = ANSR_COLOR_BLACK
   \<and> ANSR_COLOR_BLACK \<noteq> ANSR_COLOR_WHITE"
  by code_simp

subsection \<open>Growth of the grid\<close>

lemma replicate_update_0: "0 < n \<Longrightarrow> (replicate n x)[0 := v] = v # replicate (n - 1) x"
  by (cases n) simp_all

lemma fresh_grid_ok: "rep_ok (ansr_fresh cf) \<and> grid_inv (ansr_fresh cf)"
  by (simp add: ansr_fresh_def zero_ansr_def rep_ok_def grid_inv_def row_at_def)

text \<open>A renderer made with screen width 0 never wraps, so a run of \<^verbatim>\<open>A\<close> fills row 0;
  the row's block has grown by doublings from 80 cells, and after 2684354560 bytes it is
  full.\<close>

lemma row_cap_ge: "n \<le> row_cap n"
  by (induction n) (auto simp: ANSR_MIN_ALLOC_COLS_def)

lemma row_cap_mono_Suc: "row_cap n \<le> row_cap (Suc n)"
  by (simp add: le_max_iff_disj)

lemma row_cap_mono: "n \<le> m \<Longrightarrow> row_cap n \<le> row_cap m"
proof (induction m)
  case 0
  then show ?case by simp
next
  case (Suc m)
  show ?case
  proof (cases "n = Suc m")
    case True
    then show ?thesis by simp
  next
    case False
    then have "row_cap n \<le> row_cap m" using Suc by simp
    then show ?thesis using row_cap_mono_Suc [of m] by (rule order_trans)
  qed
qed

lemma row_cap_form: "0 < n \<Longrightarrow> \<exists>k. row_cap n = 80 * 2 ^ k"
proof (induction n)
  case 0
  then show ?case by simp
next
  case (Suc n)
  show ?case
  proof (cases "n = 0")
    case True
    then have "row_cap (Suc n) = 80 * 2 ^ 0" by (simp add: ANSR_MIN_ALLOC_COLS_def)
    then show ?thesis by blast
  next
    case False
    then obtain k where k: "row_cap n = 80 * 2 ^ k" using Suc.IH by auto
    show ?thesis
    proof (cases "row_cap n \<le> n")
      case True
      have "(80::nat) \<le> 80 * 2 ^ k * 2" by simp
      then have "max (80 * 2 ^ k * 2) (80::nat) = 80 * 2 ^ Suc k"
        by (simp add: max_absorb1)
      then have "row_cap (Suc n) = 80 * 2 ^ Suc k"
        using k True by (simp add: ANSR_MIN_ALLOC_COLS_def)
      then show ?thesis by blast
    next
      case False
      then show ?thesis using k by auto
    qed
  qed
qed

lemma row_cap_le: "0 < n \<Longrightarrow> row_cap n \<le> max 80 (2 * (n - 1))"
proof (induction n)
  case 0
  then show ?case by simp
next
  case (Suc n)
  show ?case
  proof (cases "n = 0")
    case True
    then show ?thesis by (simp add: ANSR_MIN_ALLOC_COLS_def)
  next
    case False
    then have ih: "row_cap n \<le> max 80 (2 * (n - 1))" using Suc.IH by simp
    show ?thesis
    proof (cases "row_cap n \<le> n")
      case True
      then show ?thesis by (simp add: ANSR_MIN_ALLOC_COLS_def)
    next
      case False
      then show ?thesis using ih by auto
    qed
  qed
qed

lemma row_cap_full: "row_cap 2684354560 = 2684354560"
proof -
  obtain k where k: "row_cap 2684354560 = 80 * 2 ^ k"
    using row_cap_form [of 2684354560] by auto
  have lo: "(2684354560::nat) \<le> 80 * 2 ^ k"
    using row_cap_ge [of 2684354560] k by simp
  have hi: "80 * 2 ^ k \<le> (5368709118::nat)"
    using row_cap_le [of 2684354560] k by simp
  have k1: "25 \<le> k"
  proof (rule ccontr)
    assume "\<not> 25 \<le> k"
    then have "k \<le> 24" by simp
    then have "(2::nat) ^ k \<le> 2 ^ 24" by (rule power_increasing) simp
    then have "80 * 2 ^ k \<le> (1342177280::nat)" by simp
    with lo show False by simp
  qed
  have k2: "k \<le> 25"
  proof (rule ccontr)
    assume "\<not> k \<le> 25"
    then have "26 \<le> k" by simp
    then have "(2::nat) ^ 26 \<le> 2 ^ k" by (rule power_increasing) simp
    then have "(5368709120::nat) \<le> 80 * 2 ^ k" by simp
    with hi show False by simp
  qed
  have "k = 25" using k1 k2 by simp
  then show ?thesis using k by simp
qed

lemma replicate_fill_next:
  assumes "n < m"
  shows "(replicate n x @ replicate (m - n) z)[n := x] = replicate (Suc n) x @ replicate (m - Suc n) z"
proof -
  have "0 < m - n" using assms by simp
  then have "(replicate (m - n) z)[0 := x] = x # replicate (m - n - 1) z"
    by (rule replicate_update_0)
  then have "(replicate n x @ replicate (m - n) z)[n := x]
               = replicate n x @ x # replicate (m - Suc n) z"
    by (simp add: list_update_append)
  also have "\<dots> = (replicate n x @ [x]) @ replicate (m - Suc n) z" by simp
  also have "replicate n x @ [x] = replicate (Suc n) x"
    by (simp add: replicate_append_same)
  finally show ?thesis .
qed

lemma one_row_step:
  assumes "0 < n" and "n < 2684354560"
  shows "ansr_write_byte alloc_always (one_row n) 0x41 = Inr (one_row (Suc n))"
proof -
  let ?a = "one_row n"
  have cap: "row_cap n \<le> 2684354560" "row_cap (Suc n) \<le> 2684354560"
    using row_cap_mono [of n 2684354560] row_cap_mono [of "Suc n" 2684354560] assms(2)
    by (simp_all add: row_cap_full)
  have un: "unat (of_nat n :: unsigned) = n" "unat (of_nat (row_cap n) :: unsigned) = row_cap n"
    using assms(2) cap(1) by (simp_all add: unat_of_nat32)
  have un1: "unat (of_nat n + 1 :: unsigned) = Suc n"
  proof -
    have "unat (of_nat (Suc n) :: unsigned) = Suc n"
      using assms(2) by (intro unat_of_nat32) simp
    then show ?thesis by (simp add: add.commute)
  qed
  have ge: "n \<le> row_cap n" by (rule row_cap_ge)
  have c80: "80 \<le> row_cap n"
    using row_cap_form [OF assms(1)] by auto
  have nx: "Suc n \<le> row_cap (Suc n)" by (rule row_cap_ge)
  let ?mid = "zero_ansr
     \<lparr> cursor_x := of_nat n,
       public := \<lparr> public_conf = zero_conf, height = 1, allocated_height = 64,
                   rows = Some \<lparr> width = of_nat n, allocated_width = of_nat (row_cap (Suc n)),
                                 cols = replicate n wide_cell
                                        @ replicate (row_cap (Suc n) - n) zero_char \<rparr>
                          # replicate 63 None \<rparr> \<rparr>"
  have f: "state ?a = ANSR_STATE_INPUT" "conf ?a = zero_conf" "cursor_y ?a = 0"
      "cursor_x ?a = of_nat n" "disp_state ?a = zero_disp_state"
    by (simp_all add: one_row_def zero_ansr_def)
  have w: "ansr_wrap ?a = ?a"
    by (simp add: ansr_wrap_def f zero_conf_def)
  have e1: "ansr_expand_rows alloc_always ?a = Inr (0, ?a)"
    by (simp add: ansr_expand_rows_def one_row_def zero_ansr_def)
  have u: "ansr_update_height ?a = ?a"
    by (simp add: ansr_update_height_def one_row_def zero_ansr_def)
  have e2: "ansr_expand_cols alloc_always ?a = Inr (0, ?mid)"
  proof (cases "row_cap n \<le> n")
    case True
    then have eq: "row_cap n = n" using ge by simp
    have "(of_nat (row_cap n) :: unsigned) \<le> of_nat n"
      by (simp add: eq)
    moreover have "max (n * 2) 80 = row_cap (Suc n)"
      using True by (simp add: ANSR_MIN_ALLOC_COLS_def eq)
    ultimately show ?thesis
      using eq un
      by (simp add: ansr_expand_cols_def one_row_def zero_ansr_def Let_def alloc_always_def
            ANSR_MIN_ALLOC_COLS_def)
  next
    case False
    then have "\<not> (of_nat (row_cap n) :: unsigned) \<le> of_nat n"
      using un by (simp add: word_le_nat_alt)
    moreover have "row_cap (Suc n) = row_cap n" using False by simp
    ultimately show ?thesis
      by (simp add: ansr_expand_cols_def one_row_def zero_ansr_def Let_def)
  qed
  have lt: "(of_nat n :: unsigned) < of_nat n + 1"
    using un un1 by (simp add: word_less_nat_alt)
  have "n < row_cap (Suc n)" using nx by simp
  from replicate_fill_next [OF this, of wide_cell zero_char]
  have upd: "(replicate n wide_cell @ replicate (row_cap (Suc n) - n) zero_char)[n := wide_cell]
               = replicate (Suc n) wide_cell @ replicate (row_cap (Suc n) - Suc n) zero_char" .
  have e3: "ansr_store_char ?mid 0x41 = Inr (0, one_row (Suc n))"
    using nx lt upd un
    by (simp add: ansr_store_char_def Let_def zero_ansr_def wide_cell_def one_row_def
          add.commute del: row_cap.simps)
  have "ansr_add_char alloc_always ?a 0x41 = Inr (0, one_row (Suc n))"
    by (simp add: ansr_add_char_def w e1 u e2 e3 del: row_cap.simps)
  then show ?thesis
    by (simp add: ansr_write_byte_def ansr_input_def f(1))
qed

lemma one_row_first:
  "ansr_write alloc_always (ansr_fresh zero_conf) [0x41] = Inr (0, one_row 1)"
  by (simp add: one_row_def ansr_fresh_def zero_ansr_def
        alloc_always_def ansr_write_byte_def
        ansr_input_def ansr_add_char_def ansr_wrap_def ansr_expand_rows_def
        ansr_update_height_def ansr_expand_cols_def ansr_store_char_def zero_conf_def Let_def
        ANSR_MIN_ALLOC_COLS_def ANSR_MIN_ALLOC_ROWS_def replicate_update_0 wide_cell_def)

lemma one_row_run:
  assumes "0 < n" and "n \<le> 2684354560"
  shows "ansr_write alloc_always (ansr_fresh zero_conf) (replicate n 0x41) = Inr (0, one_row n)"
  using assms
proof (induction n)
  case 0
  then show ?case by simp
next
  case (Suc n)
  show ?case
  proof (cases "n = 0")
    case True
    then show ?thesis using one_row_first by simp
  next
    case False
    then have ih: "ansr_write alloc_always (ansr_fresh zero_conf) (replicate n 0x41)
                     = Inr (0, one_row n)"
      using Suc by simp
    have st: "ansr_write_byte alloc_always (one_row n) 0x41 = Inr (one_row (Suc n))"
      using False Suc.prems by (intro one_row_step) simp_all
    have "replicate (Suc n) (0x41::byte) = replicate n 0x41 @ [0x41]"
      by (simp add: replicate_append_same)
    then show ?thesis
      using ih st by (simp only: ansr_write_append) simp
  qed
qed

lemma one_row_wide: "one_row 2684354560 = wide_ansr"
  by (simp add: one_row_def wide_ansr_def row_cap_full del: row_cap.simps)

text \<open>
  C6. The orderings between logical and allocated sizes are not kept. After 64 line
  feeds on a fresh renderer the cursor is on row 64; at the next \<^verbatim>\<open>A\<close> the block
  \<^verbatim>\<open>/* expand rows */\<close> grows the row table by its one step, from 0 to 64 slots, and the
  next statement stores \<^verbatim>\<open>height = cursor_y + 1\<close>: the logical height is 65, above the
  allocated height 64, before \<^verbatim>\<open>rows[64]\<close> is read outside the table. And where a row has
  to grow to \<open>2 ^ 32\<close> cells or more, \<^verbatim>\<open>new_width\<close>, computed in \<^verbatim>\<open>size_t\<close>, is cut to 32
  bits when stored into \<^verbatim>\<open>allocated_width\<close>: a fresh renderer of screen width 0 fed
  2684354560 times \<^verbatim>\<open>A\<close> is \<open>wide_ansr\<close>, with row 0 full; one more \<^verbatim>\<open>A\<close> asks for
  5368709120 cells, gets them, and records 1073741824, so the allocated width has shrunk
  and is below the logical width 2684354561, with every access inside its block.
\<close>

theorem grid_sizes_lose_their_order:
  "ansr_write alloc_always (ansr_fresh ansr_conf_defaults) (replicate 64 0x0a)
     = Inr (0, ansr_fresh ansr_conf_defaults\<lparr> cursor_y := 64 \<rparr>)
   \<and> ansr_wrap (ansr_fresh ansr_conf_defaults\<lparr> cursor_y := 64 \<rparr>)
     = ansr_fresh ansr_conf_defaults\<lparr> cursor_y := 64 \<rparr>
   \<and> ansr_expand_rows alloc_always (ansr_fresh ansr_conf_defaults\<lparr> cursor_y := 64 \<rparr>)
     = Inr (0, ansr_fresh ansr_conf_defaults
                 \<lparr> cursor_y := 64,
                   public := \<lparr> public_conf = zero_conf, height = 0, allocated_height = 64,
                               rows = replicate 64 None \<rparr> \<rparr>)
   \<and> ansr_update_height
        (ansr_fresh ansr_conf_defaults
           \<lparr> cursor_y := 64,
             public := \<lparr> public_conf = zero_conf, height = 0, allocated_height = 64,
                         rows = replicate 64 None \<rparr> \<rparr>)
     = ansr_fresh ansr_conf_defaults
         \<lparr> cursor_y := 64,
           public := \<lparr> public_conf = zero_conf, height = 65, allocated_height = 64,
                       rows = replicate 64 None \<rparr> \<rparr>
   \<and> ansr_write alloc_always (ansr_fresh ansr_conf_defaults) (replicate 64 0x0a @ [0x41])
     = Inl Out_Of_Bounds
   \<and> ansr_write alloc_always (ansr_fresh zero_conf) (replicate 2684354560 0x41)
     = Inr (0, wide_ansr)
   \<and> row_sizes wide_ansr 0 = Some (2684354560, 2684354560)
   \<and> ansr_write alloc_always wide_ansr [0x41] = Inr (0, wider_ansr)
   \<and> row_sizes wider_ansr 0 = Some (2684354561, 1073741824)"
proof -
  have rows: "ansr_write alloc_always (ansr_fresh ansr_conf_defaults) (replicate 64 0x0a)
       = Inr (0, ansr_fresh ansr_conf_defaults\<lparr> cursor_y := 64 \<rparr>)
     \<and> ansr_wrap (ansr_fresh ansr_conf_defaults\<lparr> cursor_y := 64 \<rparr>)
       = ansr_fresh ansr_conf_defaults\<lparr> cursor_y := 64 \<rparr>
     \<and> ansr_expand_rows alloc_always (ansr_fresh ansr_conf_defaults\<lparr> cursor_y := 64 \<rparr>)
       = Inr (0, ansr_fresh ansr_conf_defaults
                   \<lparr> cursor_y := 64,
                     public := \<lparr> public_conf = zero_conf, height = 0, allocated_height = 64,
                                 rows = replicate 64 None \<rparr> \<rparr>)
     \<and> ansr_update_height
          (ansr_fresh ansr_conf_defaults
             \<lparr> cursor_y := 64,
               public := \<lparr> public_conf = zero_conf, height = 0, allocated_height = 64,
                           rows = replicate 64 None \<rparr> \<rparr>)
       = ansr_fresh ansr_conf_defaults
           \<lparr> cursor_y := 64,
             public := \<lparr> public_conf = zero_conf, height = 65, allocated_height = 64,
                         rows = replicate 64 None \<rparr> \<rparr>
     \<and> ansr_write alloc_always (ansr_fresh ansr_conf_defaults) (replicate 64 0x0a @ [0x41])
       = Inl Out_Of_Bounds"
    by code_simp
  have r: "ansr_write alloc_always (ansr_fresh zero_conf) (replicate 2684354560 0x41)
             = Inr (0, wide_ansr)"
    using one_row_run [of 2684354560] by (simp add: one_row_wide)
  have a: "row_sizes wide_ansr 0 = Some (2684354560, 2684354560)"
    by (simp add: wide_ansr_def zero_ansr_def row_sizes_def row_at_def)
  have b: "ansr_write alloc_always wide_ansr [0x41] = Inr (0, wider_ansr)"
    by (simp add: wider_ansr_def wide_ansr_def zero_ansr_def alloc_always_def ansr_write_byte_def
          ansr_input_def ansr_add_char_def ansr_wrap_def ansr_expand_rows_def
          ansr_update_height_def ansr_expand_cols_def ansr_store_char_def zero_conf_def Let_def
          ANSR_MIN_ALLOC_COLS_def wide_cell_def)
  have c: "row_sizes wider_ansr 0 = Some (2684354561, 1073741824)"
    by (simp add: wider_ansr_def row_sizes_def row_at_def)
  from rows r a b c show ?thesis by blast
qed

text \<open>
  C2. \<^verbatim>\<open>_ansr_add_char\<close> grows the row table and a row by one doubling (or to the
  minimum), not until the cursor fits. With the cursor on row 64 of a fresh renderer the
  table grows from 0 to 64 slots, so the allocated height is 64 and not 65, and the
  code goes on to read \<^verbatim>\<open>rows[64]\<close>; with the cursor on column 127 of a row not yet
  allocated the row gets 80 cells and the code stores into \<^verbatim>\<open>cols[127]\<close>.
\<close>

theorem write_past_doubled_capacity:
  "ansr_write alloc_always (ansr_fresh ansr_conf_defaults) (replicate 64 0x0a)
     = Inr (0, ansr_fresh ansr_conf_defaults\<lparr> cursor_y := 64 \<rparr>)
   \<and> ansr_expand_rows alloc_always (ansr_fresh ansr_conf_defaults\<lparr> cursor_y := 64 \<rparr>)
     = Inr (0, ansr_fresh ansr_conf_defaults
                 \<lparr> cursor_y := 64,
                   public := \<lparr> public_conf = zero_conf, height = 0, allocated_height = 64,
                               rows = replicate 64 None \<rparr> \<rparr>)
   \<and> ansr_write alloc_always (ansr_fresh ansr_conf_defaults) (replicate 64 0x0a @ [0x41])
     = Inl Out_Of_Bounds
   \<and> ansr_write alloc_always (ansr_fresh ansr_conf_defaults) [0x1b, 0x5b, 0x31, 0x32, 0x37, 0x43]
     = Inr (0, ansr_fresh ansr_conf_defaults
                 \<lparr> cursor_x := 127, n_params := 1, n_params_allocated := 2, params := [127, 0] \<rparr>)
   \<and> ansr_write alloc_always (ansr_fresh ansr_conf_defaults)
        [0x1b, 0x5b, 0x31, 0x32, 0x37, 0x43, 0x41]
     = Inl Out_Of_Bounds"
  by code_simp

subsection \<open>A run of printable bytes\<close>

lemma seq_split:
  fixes W q r :: nat
  assumes "r < W"
  shows "(W * q + r) div W = q \<and> (W * q + r) mod W = r"
  using assms by simp

lemma seq_pred_wrap:
  fixes W n :: nat
  assumes "0 < W" and "0 < n" and "n mod W = 0"
  shows "(n - 1) div W + 1 = n div W \<and> (n - 1) mod W + 1 = W"
proof -
  have n: "n = W * (n div W)" using assms(3) by auto
  then have "n div W \<noteq> 0" using assms(2) by (metis mult_0_right less_numeral_extra(3))
  then obtain p where p: "n div W = Suc p" by (cases "n div W") simp_all
  have "n = W * p + W" using n p by simp
  then have m: "n - 1 = W * p + (W - 1)" using assms(1) by simp
  have "W - 1 < W" using assms(1) by simp
  from seq_split [OF this, of p] show ?thesis
    using m p assms(1) by simp
qed

lemma seq_pred_same:
  fixes W n :: nat
  assumes "0 < W" and "0 < n" and "n mod W \<noteq> 0"
  shows "(n - 1) div W = n div W \<and> (n - 1) mod W + 1 = n mod W"
proof -
  have n: "n = W * (n div W) + n mod W" by simp
  have r: "n mod W - 1 < W" using assms(1) by (simp add: less_imp_diff_less)
  have "n - 1 = W * (n div W) + (n mod W - 1)"
    using n assms(3) by (metis Nat.add_diff_assoc One_nat_def Suc_leI neq0_conv)
  with seq_split [OF r, of "n div W"] show ?thesis
    using assms(3) by simp
qed

lemma seq_pos_inj:
  fixes W i n :: nat
  shows "i div W = n div W \<Longrightarrow> i mod W = n mod W \<Longrightarrow> i = n"
  by (metis div_mod_decomp)

lemma seq_target:
  assumes s: "seq_state cf bs a" and W: "0 < unat (screen_width cf)"
    and b: "length bs div unat (screen_width cf) < 2 ^ 31"
  shows "unat (cursor_y (ansr_wrap a)) = length bs div unat (screen_width cf)
       \<and> unat (cursor_x (ansr_wrap a)) = length bs mod unat (screen_width cf)
       \<and> (if length bs mod unat (screen_width cf) = 0
          then row_at a (length bs div unat (screen_width cf)) = None
          else (\<exists>r. row_at a (length bs div unat (screen_width cf)) = Some r
                  \<and> unat (width r) = length bs mod unat (screen_width cf)))
       \<and> unat (height (public a)) = (if length bs mod unat (screen_width cf) = 0
                                       then length bs div unat (screen_width cf)
                                       else length bs div unat (screen_width cf) + 1)
       \<and> (\<forall>j > length bs div unat (screen_width cf). row_at a j = None)"
proof -
  let ?W = "unat (screen_width cf)"
  let ?n = "length bs"
  have cf: "conf a = cf" using s by (simp add: seq_state_def)
  have sw0: "screen_width cf \<noteq> 0" using W by (metis unat_0 less_numeral_extra(3))
  show ?thesis
  proof (cases "bs = []")
    case True
    then have a: "cursor_x a = 0" "cursor_y a = 0" "height (public a) = 0" "\<forall>j. row_at a j = None"
      using s by (simp_all add: seq_state_def)
    have "ansr_wrap a = a"
      using a(1) sw0 cf by (auto simp: ansr_wrap_def)
    then show ?thesis using a True by simp
  next
    case False
    then have n: "0 < ?n" by simp
    have a: "unat (cursor_y a) = (?n - 1) div ?W" "unat (cursor_x a) = (?n - 1) mod ?W + 1"
        "unat (height (public a)) = (?n - 1) div ?W + 1"
        "\<exists>r. row_at a ((?n - 1) div ?W) = Some r \<and> unat (width r) = (?n - 1) mod ?W + 1"
        "\<forall>j > (?n - 1) div ?W. row_at a j = None"
      using s False by (simp_all add: seq_state_def)
    show ?thesis
    proof (cases "?n mod ?W = 0")
      case True
      note p = seq_pred_wrap [OF W n True]
      have "unat (cursor_x a) = unat (screen_width cf)" using a(2) p by simp
      then have "cursor_x a = screen_width cf" by (simp add: word_unat_eq_iff)
      then have w: "ansr_wrap a = a\<lparr> cursor_x := 0, cursor_y := cursor_y a + 1 \<rparr>"
        using sw0 cf by (simp add: ansr_wrap_def)
      have "unat (cursor_y a) + 1 < 2 ^ 32"
        using a(1) p b by simp
      then have "unat (cursor_y a + 1) = unat (cursor_y a) + 1"
        by (simp add: unat_word_ariths)
      then have y: "unat (cursor_y (ansr_wrap a)) = ?n div ?W"
        using w a(1) p by simp
      have "row_at a (?n div ?W) = None" "\<forall>j > ?n div ?W. row_at a j = None"
        using a(5) p by auto
      then show ?thesis
        using y w True a(3) p by simp
    next
      case False
      note p = seq_pred_same [OF W n False]
      have "?n mod ?W < ?W" using W by simp
      then have "unat (cursor_x a) \<noteq> unat (screen_width cf)" using a(2) p by simp
      then have "cursor_x a \<noteq> screen_width cf" by auto
      then have w: "ansr_wrap a = a"
        using cf by (simp add: ansr_wrap_def)
      show ?thesis
        using w a p False by simp
    qed
  qed
qed

lemma seq_step:
  assumes s: "seq_state cf bs a" and pl: "ansr_plain c" and h: "\<forall>req. h req"
    and W: "0 < unat (screen_width cf)" and W2: "unat (screen_width cf) \<le> 2 ^ 31"
    and b: "length bs div unat (screen_width cf) < 2 ^ 31"
  shows "\<exists>a'. ansr_write_byte h a c = Inr a' \<and> seq_state cf (bs @ [c]) a'
           \<and> ansr_stored h a c
               = [(length bs div unat (screen_width cf), length bs mod unat (screen_width cf))]"
proof -
  let ?W = "unat (screen_width cf)"
  let ?n = "length bs"
  let ?w = "ansr_wrap a"
  let ?ty = "?n div ?W"
  let ?tx = "?n mod ?W"
  have st: "state a = ANSR_STATE_INPUT" "conf a = cf" "disp_state a = zero_disp_state"
      "rep_ok a" "grid_inv a"
    using s by (simp_all add: seq_state_def)
  have cells: "\<forall>i < ?n. cell_at a (i div ?W) (i mod ?W)
                 = Some \<lparr> code = bs ! i, char_disp_state = zero_disp_state \<rparr>"
    and others: "\<forall>y x v. cell_at a y x = Some v \<longrightarrow>
           v = zero_char \<or> (\<exists>i < ?n. y = i div ?W \<and> x = i mod ?W)"
    using s by (simp_all add: seq_state_def)
  from seq_target [OF s W b]
  have ty: "unat (cursor_y ?w) = ?ty" and tx: "unat (cursor_x ?w) = ?tx"
    and ro: "if ?tx = 0 then row_at a ?ty = None
             else (\<exists>r. row_at a ?ty = Some r \<and> unat (width r) = ?tx)"
    and hg: "unat (height (public a)) = (if ?tx = 0 then ?ty else ?ty + 1)"
    and above: "\<forall>j > ?ty. row_at a j = None"
    by simp_all
  have txW: "?tx < ?W" using W by simp
  then have tx31: "?tx < 2 ^ 31" using W2 by simp
  have rows_ok: "rows_ok a" using st(4) by (rule rep_ok_rows_ok)
  have len: "length (rows (public a)) = unat (allocated_height (public a))"
    using st(4) by (simp add: rep_ok_def)
  have hle: "unat (height (public a)) \<le> unat (allocated_height (public a))"
    using st(5) by (simp add: grid_inv_def word_le_nat_alt)
  \<comment> \<open>the write succeeds\<close>
  have c1: "cursor_y ?w < allocated_height (public a)
         \<or> (unat (allocated_height (public a)) < 2 ^ 31
             \<and> unat (cursor_y ?w) < max 64 (2 * unat (allocated_height (public a))))"
  proof (cases "?ty < unat (allocated_height (public a))")
    case True
    then show ?thesis by (simp add: word_less_nat_alt ty)
  next
    case False
    then have "unat (allocated_height (public a)) = ?ty"
      using hle hg by (auto split: if_splits)
    then show ?thesis using b ty by auto
  qed
  have c2: "case row_at a (unat (cursor_y ?w)) of
           None \<Rightarrow> unat (cursor_x ?w) < 80
         | Some r \<Rightarrow> cursor_x ?w < allocated_width r
                      \<or> unat (cursor_x ?w) < max (2 * unat (allocated_width r)) 80"
  proof (cases "?tx = 0")
    case True
    then show ?thesis using ro by (simp add: ty tx)
  next
    case False
    then obtain r where r: "row_at a ?ty = Some r" "unat (width r) = ?tx"
      using ro by auto
    have "width r \<le> allocated_width r" using st(5) r(1) by (auto simp: grid_inv_def)
    then have "?tx \<le> unat (allocated_width r)" using r(2) by (simp add: word_le_nat_alt)
    then have "?tx < max (2 * unat (allocated_width r)) 80" using False by auto
    then show ?thesis using r by (simp add: ty tx)
  qed
  obtain a' where e: "ansr_add_char h a c = Inr (0, a')"
    using add_char_succeeds [OF st(4) h c1 c2] by blast
  have wb: "ansr_write_byte h a c = Inr a'"
    using e st(1) pl by (simp add: write_byte_plain)
  \<comment> \<open>its effect\<close>
  from add_char_shape [OF e len] obtain row where
    row: "row_at a ?ty = Some row \<and> cursor_x ?w < allocated_width row
          \<or> must_grow (row_at a ?ty) (cursor_x ?w) \<and> row = grown_row (row_at a ?ty)"
    and ry: "row_at a' ?ty = Some (stored_row ?w c row)"
    and rj: "\<forall>j. j \<noteq> ?ty \<longrightarrow> row_at a' j = row_at a j"
    and cx: "cursor_x a' = cursor_x ?w + 1" and cy: "cursor_y a' = cursor_y ?w"
    and fr: "a'\<lparr> public := public a, cursor_x := cursor_x a, cursor_y := cursor_y a \<rparr> = a"
    and hg': "height (public a') = (if height (public a) \<le> cursor_y ?w
                                   then cursor_y ?w + 1 else height (public a))"
    by (auto simp: ty)
  have st': "state a' = ANSR_STATE_INPUT" "conf a' = cf" "disp_state a' = zero_disp_state"
    using arg_cong [OF fr, of state] arg_cong [OF fr, of conf] arg_cong [OF fr, of disp_state] st
    by simp_all
  have gw: "grows_narrow h a"
    unfolding grows_narrow_def ty
  proof (intro impI)
    assume g: "must_grow (row_at a ?ty) (cursor_x ?w) \<and> h (Alloc_Cols (grown_width (row_at a ?ty)))"
    show "grown_width (row_at a ?ty) < 2 ^ 32"
    proof (cases "row_at a ?ty")
      case None
      then show ?thesis by (simp add: grown_width_def ANSR_MIN_ALLOC_COLS_def)
    next
      case (Some r)
      then have "unat (allocated_width r) \<le> ?tx"
        using g by (simp add: must_grow_def word_le_nat_alt tx)
      then have "unat (allocated_width r) < 2 ^ 31" using tx31 by simp
      then show ?thesis using Some by (simp add: grown_width_def ANSR_MIN_ALLOC_COLS_def)
    qed
  qed
  have inv': "rep_ok a'" "grid_inv a'"
    using keeps_grid_add_char [OF e gw] st(4,5) by (simp_all add: keeps_grid_def)
  have ucx: "unat (cursor_x ?w + 1) = ?tx + 1"
  proof -
    have "unat (cursor_x ?w) + 1 < 2 ^ 32" using tx tx31 by simp
    then show ?thesis by (simp add: unat_word_ariths tx)
  qed
  have ucy: "unat (cursor_y ?w + 1) = ?ty + 1"
  proof -
    have "unat (cursor_y ?w) + 1 < 2 ^ 32" using ty b by simp
    then show ?thesis by (simp add: unat_word_ariths ty)
  qed
  have uh: "unat (height (public a')) = ?ty + 1"
  proof (cases "?tx = 0")
    case True
    then have "height (public a) \<le> cursor_y ?w"
      using hg by (simp add: word_le_nat_alt ty)
    then show ?thesis using hg' ucy by simp
  next
    case False
    then have "\<not> height (public a) \<le> cursor_y ?w"
      using hg by (simp add: word_le_nat_alt ty)
    then show ?thesis using hg' hg False by simp
  qed
  have wrow: "unat (width row) = ?tx"
  proof (cases "?tx = 0")
    case True
    then have "row_at a ?ty = None" using ro by simp
    then have "row = grown_row None" using row by auto
    then show ?thesis using True by (simp add: grown_row_def)
  next
    case False
    then obtain r where r: "row_at a ?ty = Some r" "unat (width r) = ?tx"
      using ro by auto
    from row have "width row = width r"
    proof
      assume "row_at a ?ty = Some row \<and> cursor_x ?w < allocated_width row"
      then show ?thesis using r by simp
    next
      assume "must_grow (row_at a ?ty) (cursor_x ?w) \<and> row = grown_row (row_at a ?ty)"
      then show ?thesis using r by (simp add: grown_row_def)
    qed
    then show ?thesis using r by simp
  qed
  have "width row < cursor_x ?w + 1"
    using wrow ucx by (simp add: word_less_nat_alt)
  then have wst: "unat (width (stored_row ?w c row)) = ?tx + 1"
    using ucx by (simp add: stored_row_def)
  \<comment> \<open>positions\<close>
  have pos: "(i div ?W, i mod ?W) \<noteq> (?ty, ?tx)" if "i < ?n" for i
    using that seq_pos_inj [of i ?W ?n] by auto
  have c_new: "cell_at a' ?ty ?tx = Some \<lparr> code = c, char_disp_state = zero_disp_state \<rparr>"
    using add_char_cells(1) [OF e rows_ok] by (simp add: ty tx st(3))
  have c_old: "cell_at a' (i div ?W) (i mod ?W)
                 = Some \<lparr> code = bs ! i, char_disp_state = zero_disp_state \<rparr>" if "i < ?n" for i
  proof -
    have "cell_at a (i div ?W) (i mod ?W)
            = Some \<lparr> code = bs ! i, char_disp_state = zero_disp_state \<rparr>"
      using cells that by simp
    from add_char_cells(3) [OF e rows_ok st(4) this] pos [OF that]
    show ?thesis by (simp add: ty tx)
  qed
  have c_all: "\<forall>i < length (bs @ [c]).
           cell_at a' (i div ?W) (i mod ?W)
             = Some \<lparr> code = (bs @ [c]) ! i, char_disp_state = zero_disp_state \<rparr>"
  proof (intro allI impI)
    fix i assume "i < length (bs @ [c])"
    then have "i < ?n \<or> i = ?n" by auto
    then show "cell_at a' (i div ?W) (i mod ?W)
             = Some \<lparr> code = (bs @ [c]) ! i, char_disp_state = zero_disp_state \<rparr>"
    proof
      assume "i < ?n" then show ?thesis using c_old by (simp add: nth_append)
    next
      assume "i = ?n" then show ?thesis using c_new by simp
    qed
  qed
  have c_other: "\<forall>y x v. cell_at a' y x = Some v \<longrightarrow>
           v = zero_char \<or> (\<exists>i < length (bs @ [c]). y = i div ?W \<and> x = i mod ?W)"
  proof (intro allI impI)
    fix y x v assume v: "cell_at a' y x = Some v"
    show "v = zero_char \<or> (\<exists>i < length (bs @ [c]). y = i div ?W \<and> x = i mod ?W)"
    proof (cases "(y, x) = (?ty, ?tx)")
      case True
      then have "?n < length (bs @ [c]) \<and> y = ?n div ?W \<and> x = ?n mod ?W" by simp
      then show ?thesis by blast
    next
      case False
      then have "(y, x) \<noteq> (unat (cursor_y ?w), unat (cursor_x ?w))" by (simp add: ty tx)
      from add_char_cells(2) [OF e rows_ok v this]
      have "cell_at a y x = Some v \<or> v = zero_char" .
      then have "v = zero_char \<or> (\<exists>i < ?n. y = i div ?W \<and> x = i mod ?W)"
        using others by blast
      then show ?thesis by (auto intro: less_SucI)
    qed
  qed
  have above': "\<forall>j > ?ty. row_at a' j = None"
    using rj above by simp
  have "seq_state cf (bs @ [c]) a'"
    unfolding seq_state_def
    using st' inv' c_all c_other above' ry wst uh cx cy ucx ty
    by simp
  moreover have "ansr_stored h a c = [(?ty, ?tx)]"
    using e st(1) pl by (simp add: ansr_stored_def ty tx)
  ultimately show ?thesis using wb by blast
qed

lemma ansr_stores_append:
  "ansr_stores h a (xs @ ys) =
     ansr_stores h a xs
     @ (case ansr_write h a xs of Inl f \<Rightarrow> [] | Inr (r, a1) \<Rightarrow> ansr_stores h a1 ys)"
  by (induction xs arbitrary: a) (simp_all split: sum.splits)

lemma seq_run:
  assumes pl: "\<forall>c \<in> set bs. ansr_plain c" and h: "\<forall>req. h req"
    and W: "0 < unat (screen_width cf)" and W2: "unat (screen_width cf) \<le> 2 ^ 31"
    and b: "bs = [] \<or> (length bs - 1) div unat (screen_width cf) < 2 ^ 31"
  shows "\<exists>a'. ansr_write h (ansr_fresh cf) bs = Inr (0, a') \<and> seq_state cf bs a'
           \<and> ansr_stores h (ansr_fresh cf) bs
               = map (\<lambda>i. (i div unat (screen_width cf), i mod unat (screen_width cf)))
                   [0 ..< length bs]"
  using pl b
proof (induction bs rule: rev_induct)
  case Nil
  have r: "row_at (ansr_fresh cf) j = None" for j
    by (simp add: row_at_def ansr_fresh_def zero_ansr_def)
  have c: "cell_at (ansr_fresh cf) y x = None" for y x
    by (simp add: cell_at_def r)
  have f: "state (ansr_fresh cf) = ANSR_STATE_INPUT" "conf (ansr_fresh cf) = cf"
      "disp_state (ansr_fresh cf) = zero_disp_state" "cursor_x (ansr_fresh cf) = 0"
      "cursor_y (ansr_fresh cf) = 0" "height (public (ansr_fresh cf)) = 0"
    by (simp_all add: ansr_fresh_def zero_ansr_def)
  have "seq_state cf [] (ansr_fresh cf)"
    using fresh_grid_ok [of cf] by (simp add: seq_state_def r c f)
  then show ?case by simp
next
  case (snoc c bs)
  let ?W = "unat (screen_width cf)"
  have bn: "length bs div ?W < 2 ^ 31" using snoc.prems(2) by simp
  have "(length bs - 1) div ?W \<le> length bs div ?W"
    by (rule div_le_mono) simp
  then have "bs = [] \<or> (length bs - 1) div ?W < 2 ^ 31" using bn by simp
  then obtain a1 where a1: "ansr_write h (ansr_fresh cf) bs = Inr (0, a1)" "seq_state cf bs a1"
      "ansr_stores h (ansr_fresh cf) bs = map (\<lambda>i. (i div ?W, i mod ?W)) [0 ..< length bs]"
    using snoc.IH snoc.prems(1) by auto
  have "ansr_plain c" using snoc.prems(1) by simp
  from seq_step [OF a1(2) this h W W2 bn] obtain a' where
    a': "ansr_write_byte h a1 c = Inr a'" "seq_state cf (bs @ [c]) a'"
      "ansr_stored h a1 c = [(length bs div ?W, length bs mod ?W)]"
    by blast
  have "ansr_write h (ansr_fresh cf) (bs @ [c]) = Inr (0, a')"
    using a1(1) a'(1) by (simp add: ansr_write_append)
  moreover have "ansr_stores h (ansr_fresh cf) (bs @ [c])
                   = map (\<lambda>i. (i div ?W, i mod ?W)) [0 ..< length (bs @ [c])]"
    using a1(1,3) a'(1,3) by (simp add: ansr_stores_append)
  ultimately show ?case using a'(2) by blast
qed

text \<open>
  C3 (as amended). Let \<open>N\<close> printable bytes (bytes that reach \<^verbatim>\<open>_ansr_add_char\<close>) be fed
  to a fresh renderer of screen width \<open>W > 0\<close>, every allocation granted, with
  \<open>W \<le> 2 ^ 31\<close> and fewer than \<open>2 ^ 31\<close> rows filled. The feed returns 0. The soft wrap
  is taken by the next write, not by the one that fills a row: for \<open>N > 0\<close> the cursor
  row is \<open>(N - 1) div W\<close> and the cursor column is \<open>(N - 1) mod W + 1\<close>. That is
  \<open>(N div W, N mod W)\<close> unless \<open>N\<close> is a positive multiple of \<open>W\<close>, where the cursor
  stays at row \<open>N div W - 1\<close>, column \<open>W\<close>. The cells stored into are, in this order,
  those at \<open>(i div W, i mod W)\<close> for \<open>i = 0, ..., N - 1\<close>; cell \<open>i\<close> holds byte \<open>i\<close> and the
  display state of the renderer; every other cell is zero.
\<close>

theorem printable_run_fills_row_major:
  assumes "\<forall>c \<in> set bs. ansr_plain c" and "\<forall>req. h req"
    and "0 < unat (screen_width cf)" and "unat (screen_width cf) \<le> 2 ^ 31"
    and "bs = [] \<or> (length bs - 1) div unat (screen_width cf) < 2 ^ 31"
  shows "\<exists>a'. ansr_write h (ansr_fresh cf) bs = Inr (0, a')
           \<and> (bs = [] \<longrightarrow> cursor_y a' = 0 \<and> cursor_x a' = 0)
           \<and> (bs \<noteq> [] \<longrightarrow>
                 unat (cursor_y a') = (length bs - 1) div unat (screen_width cf)
               \<and> unat (cursor_x a') = (length bs - 1) mod unat (screen_width cf) + 1)
           \<and> (length bs mod unat (screen_width cf) \<noteq> 0 \<longrightarrow>
                 unat (cursor_y a') = length bs div unat (screen_width cf)
               \<and> unat (cursor_x a') = length bs mod unat (screen_width cf))
           \<and> (bs \<noteq> [] \<and> length bs mod unat (screen_width cf) = 0 \<longrightarrow>
                 unat (cursor_y a') + 1 = length bs div unat (screen_width cf)
               \<and> unat (cursor_x a') = unat (screen_width cf))
           \<and> ansr_stores h (ansr_fresh cf) bs
               = map (\<lambda>i. (i div unat (screen_width cf), i mod unat (screen_width cf)))
                   [0 ..< length bs]
           \<and> (\<forall>i < length bs.
                 cell_at a' (i div unat (screen_width cf)) (i mod unat (screen_width cf))
                   = Some \<lparr> code = bs ! i, char_disp_state = disp_state (ansr_fresh cf) \<rparr>)
           \<and> (\<forall>y x v. cell_at a' y x = Some v \<longrightarrow>
                 v = zero_char
                 \<or> (\<exists>i < length bs. y = i div unat (screen_width cf)
                                      \<and> x = i mod unat (screen_width cf)))"
proof -
  let ?W = "unat (screen_width cf)"
  obtain a' where a': "ansr_write h (ansr_fresh cf) bs = Inr (0, a')" "seq_state cf bs a'"
      "ansr_stores h (ansr_fresh cf) bs = map (\<lambda>i. (i div ?W, i mod ?W)) [0 ..< length bs]"
    using seq_run [OF assms] by blast
  have d: "disp_state (ansr_fresh cf) = zero_disp_state"
    by (simp add: ansr_fresh_def zero_ansr_def)
  have e: "bs = [] \<longrightarrow> cursor_y a' = 0 \<and> cursor_x a' = 0"
    using a'(2) by (simp add: seq_state_def)
  have n: "bs \<noteq> [] \<longrightarrow> unat (cursor_y a') = (length bs - 1) div ?W
               \<and> unat (cursor_x a') = (length bs - 1) mod ?W + 1"
    using a'(2) by (simp add: seq_state_def)
  have m1: "length bs mod ?W \<noteq> 0 \<longrightarrow>
              unat (cursor_y a') = length bs div ?W \<and> unat (cursor_x a') = length bs mod ?W"
  proof
    assume r: "length bs mod ?W \<noteq> 0"
    then have "0 < length bs" by (cases bs) simp_all
    from seq_pred_same [OF assms(3) this r] n r
    show "unat (cursor_y a') = length bs div ?W \<and> unat (cursor_x a') = length bs mod ?W"
      by auto
  qed
  have m0: "bs \<noteq> [] \<and> length bs mod ?W = 0 \<longrightarrow>
              unat (cursor_y a') + 1 = length bs div ?W \<and> unat (cursor_x a') = ?W"
  proof
    assume r: "bs \<noteq> [] \<and> length bs mod ?W = 0"
    then have "0 < length bs" by simp
    from seq_pred_wrap [OF assms(3) this] n r
    show "unat (cursor_y a') + 1 = length bs div ?W \<and> unat (cursor_x a') = ?W"
      by auto
  qed
  have c: "\<forall>i < length bs. cell_at a' (i div ?W) (i mod ?W)
                   = Some \<lparr> code = bs ! i, char_disp_state = disp_state (ansr_fresh cf) \<rparr>"
    using a'(2) by (simp add: seq_state_def d)
  have o: "\<forall>y x v. cell_at a' y x = Some v \<longrightarrow>
                 v = zero_char \<or> (\<exists>i < length bs. y = i div ?W \<and> x = i mod ?W)"
    using a'(2) by (simp add: seq_state_def)
  show ?thesis
    apply (rule exI [of _ a'])
    apply (intro conjI)
           apply (rule a'(1))
          apply (rule e)
         apply (rule n)
        apply (rule m1)
       apply (rule m0)
      apply (rule a'(3))
     apply (rule c)
    apply (rule o)
    done
qed

theorem printable_run_fills_row_major_witness:
  "ansr_plain 0x41 \<and> ansr_plain 0x42 \<and> ansr_plain 0x43
   \<and> 0 < unat (screen_width \<lparr> screen_width = 2, screen_lines = 24 \<rparr>)
   \<and> (\<exists>a'. ansr_write alloc_always (ansr_fresh \<lparr> screen_width = 2, screen_lines = 24 \<rparr>)
               [0x41, 0x42, 0x43] = Inr (0, a')
          \<and> unat (cursor_y a') = 1 \<and> unat (cursor_x a') = 1
          \<and> cell_at a' 1 0 = Some \<lparr> code = 0x43, char_disp_state = zero_disp_state \<rparr>)"
proof -
  let ?cf = "\<lparr> screen_width = 2, screen_lines = 24 \<rparr>"
  let ?bs = "[0x41, 0x42, 0x43 :: byte]"
  have p: "\<forall>c \<in> set ?bs. ansr_plain c" by (simp add: ansr_plain_def)
  have h: "\<forall>req. alloc_always req" by (simp add: alloc_always_def)
  have w: "0 < unat (screen_width ?cf)" "unat (screen_width ?cf) \<le> 2 ^ 31" by simp_all
  have b: "?bs = [] \<or> (length ?bs - 1) div unat (screen_width ?cf) < 2 ^ 31" by simp
  from printable_run_fills_row_major [OF p h w b] obtain a' where
    a': "ansr_write alloc_always (ansr_fresh ?cf) ?bs = Inr (0, a')"
      "?bs \<noteq> [] \<longrightarrow> unat (cursor_y a') = (length ?bs - 1) div unat (screen_width ?cf)
               \<and> unat (cursor_x a') = (length ?bs - 1) mod unat (screen_width ?cf) + 1"
      "\<forall>i < length ?bs.
         cell_at a' (i div unat (screen_width ?cf)) (i mod unat (screen_width ?cf))
           = Some \<lparr> code = ?bs ! i, char_disp_state = disp_state (ansr_fresh ?cf) \<rparr>"
    by blast
  have c: "unat (cursor_y a') = 1 \<and> unat (cursor_x a') = 1" using a'(2) by simp
  have "cell_at a' (2 div unat (screen_width ?cf)) (2 mod unat (screen_width ?cf))
           = Some \<lparr> code = ?bs ! 2, char_disp_state = disp_state (ansr_fresh ?cf) \<rparr>"
    using a'(3) [rule_format, of 2] by simp
  then have d: "cell_at a' 1 0 = Some \<lparr> code = 0x43, char_disp_state = zero_disp_state \<rparr>"
    by (simp add: ansr_fresh_def zero_ansr_def)
  have q: "ansr_plain 0x41 \<and> ansr_plain 0x42 \<and> ansr_plain 0x43"
    by (simp add: ansr_plain_def)
  show ?thesis using q w(1) a'(1) c d by blast
qed

theorem printable_run_counterexample:
  "ansr_write alloc_always (ansr_fresh ansr_conf_defaults) (replicate 80 0x41)
     = Inr (0, ansr_fresh ansr_conf_defaults
                 \<lparr> cursor_x := 80,
                   public := \<lparr> public_conf = zero_conf, height = 1, allocated_height = 64,
                               rows = Some \<lparr> width = 80, allocated_width = 80,
                                             cols = replicate 80 wide_cell \<rparr>
                                      # replicate 63 None \<rparr> \<rparr>)
   \<and> (80 :: nat) div 80 = 1 \<and> (80 :: nat) mod 80 = 0"
  by code_simp

end
